theory Spec2Isabelle
  imports Main "HOL-Library.Sublist" "HOL-Library.Multiset"
begin

section \<open>Type-definition acquisition pipeline of the code playground\<close>

text \<open>
  A shallow embedding of the type-declaration pipeline of the playground: the URL
  normaliser and dependency walker of \<^verbatim>\<open>src/utils/typeFetcher.ts\<close>, the persistent
  cache \<^verbatim>\<open>TypeCache\<close> and the load coordinator \<^verbatim>\<open>IntelliSenseManager\<close>.

  JavaScript strings are sequences of UTF-16 code units; they are modelled as
  \<^typ>\<open>string\<close>. Every pattern the code searches for is ASCII, and the functions below
  only compare characters for equality, so the width of a character plays no role.
\<close>

subsection \<open>String primitives\<close>

text \<open>
  \<^verbatim>\<open>String.prototype.startsWith\<close>, \<^verbatim>\<open>endsWith\<close> and \<^verbatim>\<open>includes\<close> on a literal
  argument, and \<^verbatim>\<open>replace\<close> with a global regular expression that is a plain literal
  (every dot escaped) and a replacement without \<^verbatim>\<open>$\<close>: matches are taken from left
  to right and do not overlap.
\<close>

fun startsWith :: "string \<Rightarrow> string \<Rightarrow> bool" where
  "startsWith s [] = True"
| "startsWith [] (p # ps) = False"
| "startsWith (c # s) (p # ps) = (c = p \<and> startsWith s ps)"

definition endsWith :: "string \<Rightarrow> string \<Rightarrow> bool" where
  "endsWith s p = startsWith (rev s) (rev p)"

fun str_includes :: "string \<Rightarrow> string \<Rightarrow> bool" where
  "str_includes [] p = (p = [])"
| "str_includes (c # s) p = (startsWith (c # s) p \<or> str_includes s p)"

function replaceAll :: "string \<Rightarrow> string \<Rightarrow> string \<Rightarrow> string" where
  "replaceAll pat rep [] = []"
| "replaceAll pat rep (c # s) =
     (if pat \<noteq> [] \<and> startsWith (c # s) pat
      then rep @ replaceAll pat rep (drop (length pat) (c # s))
      else c # replaceAll pat rep s)"
  by pat_completeness auto
termination
  by (relation "measure (\<lambda>(pat, rep, s). length s)") auto

lemma startsWith_prefix: "startsWith s p \<longleftrightarrow> prefix p s"
  by (induction s p rule: startsWith.induct) auto

lemma str_includes_sublist: "str_includes s p \<longleftrightarrow> sublist p s"
  by (induction s) (auto simp: startsWith_prefix sublist_Cons_right)

lemma endsWith_suffix: "endsWith s p \<longleftrightarrow> suffix p s"
  by (simp add: endsWith_def startsWith_prefix suffix_to_prefix)

lemma length_replaceAll_le:
  "length rep \<le> length pat \<Longrightarrow> length (replaceAll pat rep s) \<le> length s"
proof (induction pat rep s rule: replaceAll.induct)
  case (1 pat rep)
  then show ?case by simp
next
  case (2 pat rep c s)
  show ?case
  proof (cases "pat \<noteq> [] \<and> startsWith (c # s) pat")
    case True
    then have "length pat \<le> length (c # s)"
      by (auto simp: startsWith_prefix dest: prefix_length_le)
    with 2 True show ?thesis by simp
  next
    case False
    with 2 show ?thesis by auto
  qed
qed

lemma length_replaceAll_less:
  "length rep < length pat \<Longrightarrow> str_includes s pat \<Longrightarrow>
   length (replaceAll pat rep s) < length s"
proof (induction pat rep s rule: replaceAll.induct)
  case (1 pat rep)
  then show ?case by simp
next
  case (2 pat rep c s)
  from 2(3) have ne: "pat \<noteq> []" by auto
  show ?case
  proof (cases "startsWith (c # s) pat")
    case True
    then have "length pat \<le> length (c # s)"
      by (auto simp: startsWith_prefix dest: prefix_length_le)
    moreover have "length (replaceAll pat rep (drop (length pat) (c # s)))
        \<le> length (drop (length pat) (c # s))"
      using 2(3) by (intro length_replaceAll_le) simp
    ultimately show ?thesis using True ne 2(3) by simp
  next
    case False
    with 2 ne show ?thesis by auto
  qed
qed

subsection \<open>normalizeTypeUrl (typeFetcher.ts, lines 42-65)\<close>

text \<open>
  The \<^verbatim>\<open>while\<close> loop of lines 44-46: as long as the URL contains a doubled
  declaration extension, every occurrence is replaced. Each round makes the URL
  shorter, which is the termination argument.
\<close>

function normalizeTypeUrl_loop :: "string \<Rightarrow> string" where
  "normalizeTypeUrl_loop url =
     (if str_includes url ''.d.ts.d.ts''
      then normalizeTypeUrl_loop (replaceAll ''.d.ts.d.ts'' ''.d.ts'' url)
      else url)"
  by pat_completeness auto
termination
  by (relation "measure length") (auto intro: length_replaceAll_less)

declare normalizeTypeUrl_loop.simps [simp del]

definition normalizeTypeUrl :: "string \<Rightarrow> string" where
  "normalizeTypeUrl url0 =
     (let url = normalizeTypeUrl_loop url0 in
      if endsWith url ''.d.ts'' then url
      else if str_includes url ''?'' then url
      else if endsWith url ''/'' \<or> str_includes url ''.ts'' \<or> str_includes url ''.js'' then url
      else url @ ''.d.ts'')"

subsection \<open>extractImports (IntelliSenseManager, lines 695-739)\<close>

text \<open>
  The three regular expressions of \<^verbatim>\<open>extractImports\<close> use only literals, character
  classes under \<^verbatim>\<open>*\<close> and \<^verbatim>\<open>+\<close>, single characters of a class and one capture group
  around a \<^verbatim>\<open>+\<close>. \<^verbatim>\<open>\w\<close> is the ASCII word class; \<^verbatim>\<open>\s\<close> is the white space that
  fits a character of this model (space, tab, line feed, vertical tab, form feed,
  carriage return, no-break space).
\<close>

datatype catom = CWord | CSpace | CChar char

definition isWordChar :: "char \<Rightarrow> bool" where
  "isWordChar c \<longleftrightarrow> c \<in> set (''abcdefghijklmnopqrstuvwxyz'' @ ''ABCDEFGHIJKLMNOPQRSTUVWXYZ''
      @ ''0123456789_'')"

definition isSpaceChar :: "char \<Rightarrow> bool" where
  "isSpaceChar c \<longleftrightarrow> c \<in> set [CHR '' '', CHR 0x09, CHR 0x0A, CHR 0x0B, CHR 0x0C, CHR 0x0D, CHR 0xA0]"

fun catom_matches :: "catom \<Rightarrow> char \<Rightarrow> bool" where
  "catom_matches CWord c = isWordChar c"
| "catom_matches CSpace c = isSpaceChar c"
| "catom_matches (CChar d) c = (c = d)"

datatype cclass = OneOf "catom list" | NoneOf "catom list"

fun in_class :: "cclass \<Rightarrow> char \<Rightarrow> bool" where
  "in_class (OneOf as) c = list_ex (\<lambda>a. catom_matches a c) as"
| "in_class (NoneOf as) c = (\<not> list_ex (\<lambda>a. catom_matches a c) as)"

text \<open>
  A pattern is a sequence of items. Matching backtracks as a JavaScript engine does:
  a quantifier takes as many characters as it can and gives them back one at a time
  until the rest of the pattern matches.
\<close>

datatype regex_item = Lit string | Star cclass | Plus cclass | One cclass | CapPlus cclass

fun first_some :: "('a \<Rightarrow> 'b option) \<Rightarrow> 'a list \<Rightarrow> 'b option" where
  "first_some f [] = None"
| "first_some f (x # xs) = (case f x of Some y \<Rightarrow> Some y | None \<Rightarrow> first_some f xs)"

definition greedy_counts :: "nat \<Rightarrow> cclass \<Rightarrow> string \<Rightarrow> nat list" where
  "greedy_counts lo cls s = rev [lo ..< Suc (length (takeWhile (in_class cls) s))]"

primrec match_items :: "regex_item list \<Rightarrow> string \<Rightarrow> string option \<Rightarrow> (string option \<times> string) option" where
  "match_items [] = (\<lambda>s cap. Some (cap, s))"
| "match_items (it # its) = (\<lambda>s cap.
     case it of
       Lit l \<Rightarrow> if startsWith s l then match_items its (drop (length l) s) cap else None
     | One cls \<Rightarrow> (case s of [] \<Rightarrow> None
                     | c # r \<Rightarrow> if in_class cls c then match_items its r cap else None)
     | Star cls \<Rightarrow> first_some (\<lambda>n. match_items its (drop n s) cap) (greedy_counts 0 cls s)
     | Plus cls \<Rightarrow> first_some (\<lambda>n. match_items its (drop n s) cap) (greedy_counts 1 cls s)
     | CapPlus cls \<Rightarrow>
         first_some (\<lambda>n. match_items its (drop n s) (Some (take n s))) (greedy_counts 1 cls s))"

text \<open>
  \<^verbatim>\<open>pattern.exec(code)\<close> with the \<^verbatim>\<open>g\<close> flag: the leftmost match at or after
  \<^verbatim>\<open>lastIndex\<close>, which then moves to the end of the match. The \<^verbatim>\<open>while\<close> loop of
  line 710 collects the capture group of every match. A match that consumes nothing
  would leave \<^verbatim>\<open>lastIndex\<close> in place and the loop would not end; the three patterns
  start with a literal, so this does not arise (lemma \<open>exec_all_progress\<close>).
\<close>

fun search :: "regex_item list \<Rightarrow> string \<Rightarrow> (string option \<times> string) option" where
  "search re [] = match_items re [] None"
| "search re (c # s) =
     (case match_items re (c # s) None of
        Some m \<Rightarrow> Some m
      | None \<Rightarrow> search re s)"

function exec_all :: "regex_item list \<Rightarrow> string \<Rightarrow> string option list" where
  "exec_all re s =
     (case search re s of
        None \<Rightarrow> []
      | Some (cap, rest) \<Rightarrow>
          if length rest < length s then cap # exec_all re rest else [cap])"
  by pat_completeness auto
termination
  by (relation "measure (\<lambda>(re, s). length s)") auto

declare exec_all.simps [simp del]

definition import_patterns :: "regex_item list list" where
  "import_patterns =
    [ [Lit ''import'', Plus (OneOf [CSpace]),
       Plus (OneOf [CWord, CSpace, CChar CHR ''{'', CChar CHR ''}'', CChar CHR '','', CChar CHR ''*'']),
       Plus (OneOf [CSpace]), Lit ''from'', Plus (OneOf [CSpace]),
       One (OneOf [CChar CHR 0x27, CChar CHR 0x22]),
       CapPlus (NoneOf [CChar CHR 0x27, CChar CHR 0x22]),
       One (OneOf [CChar CHR 0x27, CChar CHR 0x22])],
      [Lit ''import'', Star (OneOf [CSpace]), Lit ''('', Star (OneOf [CSpace]),
       One (OneOf [CChar CHR 0x27, CChar CHR 0x22]),
       CapPlus (NoneOf [CChar CHR 0x27, CChar CHR 0x22]),
       One (OneOf [CChar CHR 0x27, CChar CHR 0x22]),
       Star (OneOf [CSpace]), Lit '')''],
      [Lit ''require'', Star (OneOf [CSpace]), Lit ''('', Star (OneOf [CSpace]),
       One (OneOf [CChar CHR 0x27, CChar CHR 0x22]),
       CapPlus (NoneOf [CChar CHR 0x27, CChar CHR 0x22]),
       One (OneOf [CChar CHR 0x27, CChar CHR 0x22]),
       Star (OneOf [CSpace]), Lit '')''] ]"

text \<open>
  \<^verbatim>\<open>split("/")\<close>, \<^verbatim>\<open>join("/")\<close> and insertion into a \<^verbatim>\<open>Set\<close>, whose iteration order
  is the insertion order.
\<close>

function split_on :: "char \<Rightarrow> string \<Rightarrow> string list" where
  "split_on sep s =
     takeWhile (\<lambda>c. c \<noteq> sep) s #
       (case dropWhile (\<lambda>c. c \<noteq> sep) s of [] \<Rightarrow> [] | _ # r \<Rightarrow> split_on sep r)"
  by pat_completeness auto
termination
proof (relation "measure (\<lambda>(sep, s). length s)")
  fix sep :: char and s x21 x22
  assume "dropWhile (\<lambda>c. c \<noteq> sep) s = x21 # x22"
  then have "length (x21 # x22) \<le> length s"
    by (metis length_dropWhile_le)
  then show "((sep, x22), (sep, s)) \<in> measure (\<lambda>(sep, s). length s)" by simp
qed simp

declare split_on.simps [simp del]

fun join :: "string \<Rightarrow> string list \<Rightarrow> string" where
  "join sep [] = []"
| "join sep [x] = x"
| "join sep (x # y # ys) = x @ sep @ join sep (y # ys)"

definition set_add :: "'a \<Rightarrow> 'a list \<Rightarrow> 'a list" where
  "set_add x xs = (if x \<in> set xs then xs else xs @ [x])"

definition cleanModuleName :: "string \<Rightarrow> string" where
  "cleanModuleName moduleName =
     (if startsWith moduleName ''@''
      then join ''/'' (take 2 (split_on CHR ''/'' moduleName))
      else (case split_on CHR ''/'' moduleName of [] \<Rightarrow> [] | h # _ \<Rightarrow> h))"

definition add_import :: "string list \<Rightarrow> string option \<Rightarrow> string list" where
  "add_import imports m =
     (case m of
        None \<Rightarrow> imports
      | Some moduleName \<Rightarrow>
          if \<not> startsWith moduleName ''.'' \<and> \<not> startsWith moduleName ''/''
             \<and> \<not> startsWith moduleName ''node:''
             \<and> moduleName \<notin> set [''fs'', ''path'', ''os'', ''crypto'', ''util'', ''events'']
          then set_add (cleanModuleName moduleName) imports
          else imports)"

definition extractImports :: "string \<Rightarrow> string list" where
  "extractImports code =
     foldl (\<lambda>imports pattern. foldl add_import imports (exec_all pattern code)) [] import_patterns"

text \<open>The source text of the extraction example; \<^verbatim>\<open>0x27\<close> is the single quote.\<close>

definition sample_source :: string where
  "sample_source = ''import { Button } from '' @ [CHR 0x27] @ ''@vapor-ui/core'' @ [CHR 0x27]
     @ ''; import x from '' @ [CHR 0x27] @ ''./local'' @ [CHR 0x27]
     @ ''; const y = require('' @ [CHR 0x27] @ ''lodash/fp'' @ [CHR 0x27] @ '');''"

subsection \<open>Platform: network, clock, storage\<close>

text \<open>
  The pipeline talks to three things outside itself: \<^verbatim>\<open>fetch\<close>, \<^verbatim>\<open>Date.now\<close> and
  \<^verbatim>\<open>localStorage\<close>. An \<open>env\<close> fixes how the outside answers; the \<open>world\<close> is the
  mutable state of one page, passed through every operation. A response is all the
  code reads of it: \<^verbatim>\<open>ok\<close>, \<^verbatim>\<open>statusText\<close>, the header lookup and the body
  (\<open>None\<close> when \<^verbatim>\<open>res.text()\<close> rejects).
\<close>

datatype http_method = GET | HEAD

record http_response =
  ok :: bool
  statusText :: string
  header :: "string \<Rightarrow> string option"
  body :: "string option"

text \<open>The record \<^verbatim>\<open>CachedTypeInfo\<close> of the cache (README.md part, lines 126-131).\<close>

record CachedTypeInfo =
  content :: string
  timestamp :: int
  version :: "string option"
  etag :: "string option"

text \<open>
  \<open>respond\<close> answers the request issued at a given tick (\<open>None\<close>: the promise of
  \<^verbatim>\<open>fetch\<close> rejects) and \<open>clock\<close> is \<^verbatim>\<open>Date.now()\<close> at a tick, so answers may change
  over time. \<^verbatim>\<open>JSON.parse\<close> and \<^verbatim>\<open>JSON.stringify\<close> are the platform's; \<open>JSON_parse\<close>
  is \<open>None\<close> where parsing (or reading a field of the parsed value) throws, and a
  parsed value has the record's shape, as the type annotation of the source says.
  \<open>quota_ok\<close> tells whether \<^verbatim>\<open>setItem\<close> accepts the storage it would produce (it
  throws otherwise). \<open>preProcessFile\<close> is \<^verbatim>\<open>ts.preProcessFile\<close>, giving the referenced
  and the imported file names, and \<open>resolveUrl rel base\<close> is
  \<^verbatim>\<open>new URL(rel, base).toString()\<close>, \<open>None\<close> where the constructor throws.
\<close>

record env =
  respond :: "nat \<Rightarrow> http_method \<Rightarrow> string \<Rightarrow> http_response option"
  clock :: "nat \<Rightarrow> int"
  JSON_parse :: "string \<Rightarrow> CachedTypeInfo option"
  JSON_stringify :: "CachedTypeInfo \<Rightarrow> string"
  quota_ok :: "(string \<times> string) list \<Rightarrow> bool"
  preProcessFile :: "string \<Rightarrow> string list \<times> string list"
  resolveUrl :: "string \<Rightarrow> string \<Rightarrow> string option"

text \<open>
  \<open>localStorage\<close> lists the stored pairs in the order of \<^verbatim>\<open>localStorage.key(i)\<close>.
  \<open>files\<close> and \<open>visited\<close> are the two fields of \<^verbatim>\<open>globalVFS\<close>, \<open>extraLibs\<close> the
  libraries registered with the editor, \<open>loadingQueue\<close> and \<open>loadedModules\<close> the two
  sets of the \<^verbatim>\<open>IntelliSenseManager\<close>. \<open>requests\<close> logs every call of \<^verbatim>\<open>fetch\<close>.
\<close>

record world =
  localStorage :: "(string \<times> string) list"
  hitCount :: nat
  missCount :: nat
  requests :: "(http_method \<times> string) list"
  ticks :: nat
  files :: "string \<rightharpoonup> string"
  visited :: "string set"
  extraLibs :: "string \<rightharpoonup> string"
  loadingQueue :: "string set"
  loadedModules :: "string set"

definition fetch :: "env \<Rightarrow> http_method \<Rightarrow> string \<Rightarrow> world \<Rightarrow> http_response option \<times> world" where
  "fetch e m url w =
     (respond e (ticks w) m url,
      w\<lparr>requests := requests w @ [(m, url)], ticks := Suc (ticks w)\<rparr>)"

definition Date_now :: "env \<Rightarrow> world \<Rightarrow> int \<times> world" where
  "Date_now e w = (clock e (ticks w), w\<lparr>ticks := Suc (ticks w)\<rparr>)"

text \<open>
  \<^verbatim>\<open>getItem\<close>, \<^verbatim>\<open>removeItem\<close> and \<^verbatim>\<open>setItem\<close>. Removing a pair moves the later pairs
  one index down; a new key goes to the end. (The order of keys is left to the
  browser; this is the usual one.)
\<close>

definition getItem :: "(string \<times> string) list \<Rightarrow> string \<Rightarrow> string option" where
  "getItem ls k = map_of ls k"

definition removeItem :: "string \<Rightarrow> (string \<times> string) list \<Rightarrow> (string \<times> string) list" where
  "removeItem k ls = filter (\<lambda>kv. fst kv \<noteq> k) ls"

definition setItem :: "string \<Rightarrow> string \<Rightarrow> (string \<times> string) list \<Rightarrow> (string \<times> string) list" where
  "setItem k v ls =
     (if k \<in> set (map fst ls) then map (\<lambda>kv. if fst kv = k then (k, v) else kv) ls
      else ls @ [(k, v)])"

subsection \<open>TypeCache (README.md part, lines 141-380)\<close>

definition CACHE_PREFIX :: string where
  "CACHE_PREFIX = ''ts-types-cache:''"

definition CACHE_EXPIRY :: int where
  "CACHE_EXPIRY = 24 * 60 * 60 * 1000"

definition MAX_CACHE_SIZE :: nat where
  "MAX_CACHE_SIZE = 50 * 1024 * 1024"

definition isAlnum :: "char \<Rightarrow> bool" where
  "isAlnum c \<longleftrightarrow> c \<in> set (''abcdefghijklmnopqrstuvwxyz'' @ ''ABCDEFGHIJKLMNOPQRSTUVWXYZ''
      @ ''0123456789'')"

definition getCacheKey :: "string \<Rightarrow> string" where
  "getCacheKey url = CACHE_PREFIX @ map (\<lambda>c. if isAlnum c then c else CHR ''_'') url"

text \<open>
  \<^verbatim>\<open>validateETag\<close> (lines 344-357): a \<^verbatim>\<open>HEAD\<close> request; a rejected request counts as
  valid, a response is valid when its \<^verbatim>\<open>etag\<close> header is the stored one.
\<close>

definition validateETag :: "env \<Rightarrow> string \<Rightarrow> string \<Rightarrow> world \<Rightarrow> bool \<times> world" where
  "validateETag e url cachedETag w =
     (case fetch e HEAD url w of
        (None, w') \<Rightarrow> (True, w')
      | (Some response, w') \<Rightarrow> (header response ''etag'' = Some cachedETag, w'))"

definition miss :: "world \<Rightarrow> world" where
  "miss w = w\<lparr>missCount := Suc (missCount w)\<rparr>"

definition hit :: "world \<Rightarrow> world" where
  "hit w = w\<lparr>hitCount := Suc (hitCount w)\<rparr>"

text \<open>
  \<^verbatim>\<open>get\<close> (lines 152-189). \<^verbatim>\<open>!cached\<close> holds for a missing and for an empty value;
  a value that cannot be parsed throws inside the \<^verbatim>\<open>try\<close> and lands in the
  \<^verbatim>\<open>catch\<close>, which counts a miss and returns \<^verbatim>\<open>null\<close>.
\<close>

definition TypeCache_get :: "env \<Rightarrow> string \<Rightarrow> world \<Rightarrow> string option \<times> world" where
  "TypeCache_get e moduleUrl w =
     (let cacheKey = getCacheKey moduleUrl in
      case getItem (localStorage w) cacheKey of
        None \<Rightarrow> (None, miss w)
      | Some cached \<Rightarrow>
          if cached = [] then (None, miss w)
          else
            (case JSON_parse e cached of
               None \<Rightarrow> (None, miss w)
             | Some parsedCache \<Rightarrow>
                 (case Date_now e w of (now, w1) \<Rightarrow>
                    if now - timestamp parsedCache > CACHE_EXPIRY
                    then (None, miss (w1\<lparr>localStorage := removeItem cacheKey (localStorage w1)\<rparr>))
                    else
                      (case etag parsedCache of
                         None \<Rightarrow> (Some (content parsedCache), hit w1)
                       | Some tag \<Rightarrow>
                           if tag = [] then (Some (content parsedCache), hit w1)
                           else
                             (case validateETag e moduleUrl tag w1 of (isValid, w2) \<Rightarrow>
                                if \<not> isValid
                                then (None, miss (w2\<lparr>localStorage := removeItem cacheKey (localStorage w2)\<rparr>))
                                else (Some (content parsedCache), hit w2))))))"

definition isCacheKey :: "string \<Rightarrow> bool" where
  "isCacheKey key = startsWith key CACHE_PREFIX"

definition getCurrentCacheSize :: "(string \<times> string) list \<Rightarrow> nat" where
  "getCurrentCacheSize ls = sum_list (map (\<lambda>kv. length (snd kv)) (filter (\<lambda>kv. isCacheKey (fst kv)) ls))"

text \<open>
  The first loop of \<^verbatim>\<open>cleanupOldEntries\<close> (lines 294-309) walks the storage by index
  and removes, while it walks, each record of the cache that cannot be parsed.
\<close>

function cleanup_scan ::
  "env \<Rightarrow> nat \<Rightarrow> (string \<times> string) list \<Rightarrow> (string \<times> int) list
     \<Rightarrow> (string \<times> string) list \<times> (string \<times> int) list" where
  "cleanup_scan e i ls entries =
     (if i < length ls then
        (case ls ! i of (key, val) \<Rightarrow>
           if isCacheKey key then
             if val \<noteq> [] then
               (case JSON_parse e val of
                  Some parsed \<Rightarrow> cleanup_scan e (Suc i) ls (entries @ [(key, timestamp parsed)])
                | None \<Rightarrow> cleanup_scan e (Suc i) (removeItem key ls) entries)
             else cleanup_scan e (Suc i) ls entries
           else cleanup_scan e (Suc i) ls entries)
      else (ls, entries))"
  by pat_completeness auto
termination
  by (relation "measure (\<lambda>(e, i, ls, entries). length ls - i)")
     (auto simp: removeItem_def intro: le_less_trans[OF diff_le_mono[OF length_filter_le]])

declare cleanup_scan.simps [simp del]

text \<open>
  \<^verbatim>\<open>Math.ceil(entries.length * 0.3)\<close>. The double nearest to 0.3 is below 0.3 by about
  \<open>10\<^sup>-\<^sup>1\<^sup>7\<close>, so for every length a storage can have the product is rounded to
  the exact value or stays strictly between the same two integers, and the result is
  the ceiling of \<open>3n/10\<close>.
\<close>

definition ceil30 :: "nat \<Rightarrow> nat" where
  "ceil30 n = (3 * n + 9) div 10"

text \<open>
  \<^verbatim>\<open>Array.prototype.sort\<close> is stable, as is \<^const>\<open>sort_key\<close>; the comparator orders
  by timestamp.
\<close>

definition cleanupOldEntries :: "env \<Rightarrow> (string \<times> string) list \<Rightarrow> (string \<times> string) list" where
  "cleanupOldEntries e ls =
     (case cleanup_scan e 0 ls [] of (ls1, entries) \<Rightarrow>
        let sorted = sort_key snd entries;
            toRemove = ceil30 (length entries)
        in foldl (\<lambda>st ent. removeItem (fst ent) st) ls1 (take toRemove sorted))"

definition ensureCacheSpace :: "env \<Rightarrow> (string \<times> string) list \<Rightarrow> (string \<times> string) list" where
  "ensureCacheSpace e ls =
     (if getCurrentCacheSize ls > MAX_CACHE_SIZE then cleanupOldEntries e ls else ls)"

text \<open>
  \<^verbatim>\<open>set\<close> (lines 194-218): a failing \<^verbatim>\<open>setItem\<close> is caught, and what
  \<^verbatim>\<open>ensureCacheSpace\<close> has removed stays removed.
\<close>

definition TypeCache_set ::
  "env \<Rightarrow> string \<Rightarrow> string \<Rightarrow> string option \<Rightarrow> string option \<Rightarrow> world \<Rightarrow> world" where
  "TypeCache_set e moduleUrl text opt_etag opt_version w =
     (let w1 = w\<lparr>localStorage := ensureCacheSpace e (localStorage w)\<rparr>;
          cacheKey = getCacheKey moduleUrl
      in case Date_now e w1 of (now, w2) \<Rightarrow>
        let cacheInfo = \<lparr>content = text, timestamp = now, version = opt_version, etag = opt_etag\<rparr>;
            stored = setItem cacheKey (JSON_stringify e cacheInfo) (localStorage w2)
        in if quota_ok e stored then w2\<lparr>localStorage := stored\<rparr> else w2)"

text \<open>
  For the statement of the eviction property: the records of the cache with their
  stored timestamps, the \<open>ceil30\<close> oldest of them, and the storages in which every
  record of the cache can be parsed.
\<close>

definition cache_entries :: "env \<Rightarrow> (string \<times> string) list \<Rightarrow> (string \<times> int) list" where
  "cache_entries e ls =
     map (\<lambda>kv. (fst kv, case JSON_parse e (snd kv) of Some parsed \<Rightarrow> timestamp parsed | None \<Rightarrow> 0))
       (filter (\<lambda>kv. isCacheKey (fst kv)) ls)"

definition oldest_entries :: "env \<Rightarrow> (string \<times> string) list \<Rightarrow> (string \<times> int) list" where
  "oldest_entries e ls =
     take (ceil30 (length (cache_entries e ls))) (sort_key snd (cache_entries e ls))"

definition all_decodable :: "env \<Rightarrow> (string \<times> string) list \<Rightarrow> bool" where
  "all_decodable e ls =
     list_all (\<lambda>kv. \<not> isCacheKey (fst kv) \<or> (snd kv \<noteq> [] \<and> JSON_parse e (snd kv) \<noteq> None)) ls"

subsection \<open>Concrete worlds and environments\<close>

text \<open>
  The state of a fresh page, and an environment for concrete runs: the network is
  down, the clock stands at 40, \<open>demo_parse\<close> is \<^verbatim>\<open>JSON.parse\<close> on the handful of
  stored texts that occur below (any other text counts as a syntax error), and
  \<^verbatim>\<open>JSON.stringify\<close> renders a record without tag and version whose content needs no
  escaping.
\<close>

definition empty_world :: world where
  "empty_world = \<lparr>localStorage = [], hitCount = 0, missCount = 0, requests = [], ticks = 0,
     files = Map.empty, visited = {}, extraLibs = Map.empty, loadingQueue = {}, loadedModules = {}\<rparr>"

definition demo_parse :: "string \<Rightarrow> CachedTypeInfo option" where
  \<open>demo_parse =
     map_of
        [(''{"content":"a","timestamp":30}'',
            \<lparr>content = ''a'', timestamp = 30, version = None, etag = None\<rparr>),
         (''{"content":"b","timestamp":10}'',
            \<lparr>content = ''b'', timestamp = 10, version = None, etag = None\<rparr>),
         (''{"content":"t","timestamp":5,"etag":"v1"}'',
            \<lparr>content = ''t'', timestamp = 5, version = None, etag = Some ''v1''\<rparr>)]\<close>

definition demo_env :: env where
  \<open>demo_env = \<lparr>respond = (\<lambda>n m url. None), clock = (\<lambda>n. 40), JSON_parse = demo_parse,
     JSON_stringify = (\<lambda>info. ''{"content":"'' @ content info @ ''","timestamp":40}''),
     quota_ok = (\<lambda>ls. True),
     preProcessFile = (\<lambda>text. ([], [])), resolveUrl = (\<lambda>rel base. None)\<rparr>\<close>

text \<open>
  A stored record of exactly the budget's size (\<open>full_record\<close>), one that is one
  character longer (\<open>big_record\<close>), and an environment that can parse the latter.
\<close>

definition big_record :: string where
  \<open>big_record = ''{"content":"'' @ replicate (MAX_CACHE_SIZE - 28) CHR ''x'' @ ''","timestamp":20}''\<close>

definition full_record :: string where
  \<open>full_record = ''{"content":"'' @ replicate (MAX_CACHE_SIZE - 28) CHR ''x'' @ ''","timestamp":0}''\<close>

definition eviction_env :: env where
  "eviction_env = demo_env\<lparr>JSON_parse := (\<lambda>v.
     if v = big_record
     then Some \<lparr>content = replicate (MAX_CACHE_SIZE - 28) CHR ''x'', timestamp = 20,
                 version = None, etag = None\<rparr>
     else demo_parse v)\<rparr>"

definition demo_storage :: "(string \<times> string) list" where
  \<open>demo_storage =
     [(getCacheKey ''a'', ''{"content":"a","timestamp":30}''),
      (getCacheKey ''b'', ''{"content":"b","timestamp":10}''),
      (''theme'', ''dark''),
      (getCacheKey ''c'', big_record)]\<close>

definition etag_storage :: "(string \<times> string) list" where
  \<open>etag_storage = [(getCacheKey ''t'', ''{"content":"t","timestamp":5,"etag":"v1"}'')]\<close>

definition malformed_storage :: "(string \<times> string) list" where
  \<open>malformed_storage = [(getCacheKey ''m'', ''{oops'')]\<close>

definition changed_tag_env :: env where
  "changed_tag_env = demo_env\<lparr>respond := (\<lambda>n m url.
     Some \<lparr>ok = True, statusText = ''OK'', header = [''etag'' \<mapsto> ''v2''], body = None\<rparr>)\<rparr>"

text \<open>
  Two servers that answer every request without an \<^verbatim>\<open>ETag\<close> header: one with
  status 200, one with status 503.
\<close>

definition tagless_env :: env where
  "tagless_env = demo_env\<lparr>respond := (\<lambda>n m url.
     Some \<lparr>ok = True, statusText = ''OK'', header = Map.empty, body = None\<rparr>)\<rparr>"

definition unavailable_env :: env where
  "unavailable_env = demo_env\<lparr>respond := (\<lambda>n m url.
     Some \<lparr>ok = False, statusText = ''Service Unavailable'', header = Map.empty, body = None\<rparr>)\<rparr>"

subsection \<open>The dependency walker (typeFetcher.ts, lines 70-219)\<close>

text \<open>
  The walker is a pair of mutually recursive asynchronous functions. In this part
  they run one call at a time, each \<^verbatim>\<open>await\<close> completing before the next statement:
  an operation takes the world and returns an outcome with the new world. An outcome
  is the settled promise, \<open>Resolved\<close> or \<open>Rejected\<close>; \<open>Diverged\<close> stands for a call
  that has not settled within the recursion depth it was given.
\<close>

datatype 'a outcome = Resolved 'a | Rejected string | Diverged

text \<open>
  \<^verbatim>\<open>url.replace("https://esm.sh/", ...)\<close> replaces the first occurrence of a string;
  \<^verbatim>\<open>virtualPath.replace(/\?.*$/, "")\<close> cuts at the first question mark after which
  no line terminator follows (the dot of the pattern matches none).
\<close>

fun replaceFirst :: "string \<Rightarrow> string \<Rightarrow> string \<Rightarrow> string" where
  "replaceFirst pat rep [] = (if pat = [] then rep else [])"
| "replaceFirst pat rep (c # s) =
     (if startsWith (c # s) pat then rep @ drop (length pat) (c # s)
      else c # replaceFirst pat rep s)"

definition isLineTerminator :: "char \<Rightarrow> bool" where
  "isLineTerminator c \<longleftrightarrow> c = CHR 0x0A \<or> c = CHR 0x0D"

fun strip_query :: "string \<Rightarrow> string" where
  "strip_query [] = []"
| "strip_query (c # s) =
     (if c = CHR ''?'' \<and> \<not> list_ex isLineTerminator s then [] else c # strip_query s)"

text \<open>
  A string-or-null value in a condition: neither \<^verbatim>\<open>null\<close> (or \<^verbatim>\<open>undefined\<close>) nor
  the empty string.
\<close>

definition truthy :: "string option \<Rightarrow> bool" where
  "truthy x \<longleftrightarrow> (case x of None \<Rightarrow> False | Some s \<Rightarrow> s \<noteq> [])"

definition markVisited :: "string \<Rightarrow> world \<Rightarrow> world" where
  "markVisited path w = w\<lparr>visited := insert path (visited w)\<rparr>"

text \<open>
  Lines 111-145: the virtual path, the entry of the virtual file system and the
  registrations with the editor, each skipped when the same content is registered
  under the path already.
\<close>

definition addExtraLib :: "string \<Rightarrow> string \<Rightarrow> world \<Rightarrow> world" where
  "addExtraLib text path w = w\<lparr>extraLibs := (extraLibs w)(path \<mapsto> text)\<rparr>"

definition register_lib :: "string \<Rightarrow> string \<Rightarrow> world \<Rightarrow> world" where
  "register_lib text path w =
     (if extraLibs w path \<noteq> Some text then addExtraLib text path w else w)"

definition virtualPath_of :: "string \<Rightarrow> string option \<Rightarrow> string" where
  "virtualPath_of url packageName =
     (if truthy packageName
      then ''file:///node_modules/'' @ the packageName @ ''/index.d.ts''
      else let virtualPath = replaceFirst ''https://esm.sh/'' ''file:///node_modules/'' url in
           if \<not> endsWith virtualPath ''.d.ts'' then strip_query virtualPath @ ''.d.ts''
           else virtualPath)"

definition register_types :: "string \<Rightarrow> string \<Rightarrow> string option \<Rightarrow> world \<Rightarrow> world" where
  "register_types url text packageName w =
     (let virtualPath = virtualPath_of url packageName;
          w1 = w\<lparr>files := (files w)(virtualPath \<mapsto> text)\<rparr>;
          w2 = register_lib text virtualPath w1
      in if truthy packageName \<and> \<not> str_includes virtualPath ''/dist/''
         then register_lib text (''file:///node_modules/@types/'' @ the packageName @ ''/index.d.ts'') w2
         else w2)"

text \<open>
  Lines 90-105: cache first, then the network. A rejected \<^verbatim>\<open>fetch\<close> or body is an
  exception inside the \<^verbatim>\<open>try\<close> block; a response that is not \<^verbatim>\<open>ok\<close> makes
  \<^verbatim>\<open>processFile\<close> return (\<open>Resolved None\<close>).
\<close>

definition obtain_text :: "env \<Rightarrow> string \<Rightarrow> world \<Rightarrow> string option outcome \<times> world" where
  "obtain_text e url w =
     (case TypeCache_get e url w of (cached, w1) \<Rightarrow>
        if truthy cached then (Resolved cached, w1)
        else
          (case fetch e GET url w1 of
             (None, w2) \<Rightarrow> (Rejected ''fetch failed'', w2)
           | (Some res, w2) \<Rightarrow>
               if \<not> ok res then (Resolved None, w2)
               else
                 (case body res of
                    None \<Rightarrow> (Rejected ''body failed'', w2)
                  | Some text \<Rightarrow>
                      let tag = (if truthy (header res ''etag'') then header res ''etag'' else None)
                      in (Resolved (Some text), TypeCache_set e url text tag None w2))))"

text \<open>
  The \<^verbatim>\<open>catch\<close> blocks of lines 178-180, 170-175 and 213-215 log and fall through.
\<close>

definition catch_all :: "unit outcome \<times> world \<Rightarrow> unit outcome \<times> world" where
  "catch_all r = (case r of (Rejected err, w) \<Rightarrow> (Resolved (), w) | _ \<Rightarrow> r)"

text \<open>
  The recursion of the two functions runs through \<open>self\<close>, the walker with one unit
  of depth less; \<open>walk\<close> ties the knot by recursion on the depth.
  \<open>process_refs\<close> is the loop of lines 151-156, \<open>process_imports\<close> the loop of
  lines 159-177. \<^verbatim>\<open>new URL\<close> throws inside the \<^verbatim>\<open>try\<close> of \<^verbatim>\<open>processFile\<close>, which
  ends the loop.
\<close>

datatype call = ProcessFile string "string option" | FetchEntry string

type_synonym walker = "call \<Rightarrow> world \<Rightarrow> unit outcome \<times> world"

fun process_refs :: "walker \<Rightarrow> env \<Rightarrow> string \<Rightarrow> string list \<Rightarrow> world \<Rightarrow> unit outcome \<times> world" where
  "process_refs self e url [] w = (Resolved (), w)"
| "process_refs self e url (ref # refs) w =
     (case resolveUrl e ref url of
        None \<Rightarrow> (Rejected ''invalid URL'', w)
      | Some child \<Rightarrow>
          (case self (ProcessFile (normalizeTypeUrl child) None) w of
             (Resolved u, w1) \<Rightarrow> process_refs self e url refs w1
           | r \<Rightarrow> r))"

fun process_imports :: "walker \<Rightarrow> env \<Rightarrow> string \<Rightarrow> string list \<Rightarrow> world \<Rightarrow> unit outcome \<times> world" where
  "process_imports self e url [] w = (Resolved (), w)"
| "process_imports self e url (fileName # rest) w =
     (if startsWith fileName ''.'' then
        (case resolveUrl e fileName url of
           None \<Rightarrow> (Rejected ''invalid URL'', w)
         | Some child \<Rightarrow>
             (case self (ProcessFile (normalizeTypeUrl child) None) w of
                (Resolved u, w1) \<Rightarrow> process_imports self e url rest w1
              | r \<Rightarrow> r))
      else if \<not> str_includes fileName ''/'' then
        (case catch_all (self (FetchEntry fileName) w) of
           (Resolved u, w1) \<Rightarrow> process_imports self e url rest w1
         | r \<Rightarrow> r)
      else process_imports self e url rest w)"

text \<open>
  \<^verbatim>\<open>processFile\<close> (lines 79-181) and \<^verbatim>\<open>fetchEntry\<close> (lines 186-216). The visited
  test and the mark come before the \<^verbatim>\<open>try\<close>; nothing there can throw.
\<close>

definition processFile_body :: "walker \<Rightarrow> env \<Rightarrow> string \<Rightarrow> string option \<Rightarrow> world \<Rightarrow> unit outcome \<times> world" where
  "processFile_body self e url0 packageName w =
     (let url = normalizeTypeUrl url0 in
      if url \<in> visited w then (Resolved (), w)
      else catch_all
        (case obtain_text e url (markVisited url w) of
           (Rejected err, w1) \<Rightarrow> (Rejected err, w1)
         | (Diverged, w1) \<Rightarrow> (Diverged, w1)
         | (Resolved None, w1) \<Rightarrow> (Resolved (), w1)
         | (Resolved (Some text), w1) \<Rightarrow>
             (let w2 = register_types url text packageName w1 in
              case process_refs self e url (fst (preProcessFile e text)) w2 of
                (Resolved u, w3) \<Rightarrow> process_imports self e url (snd (preProcessFile e text)) w3
              | r \<Rightarrow> r)))"

definition fetchEntry_body :: "walker \<Rightarrow> env \<Rightarrow> string \<Rightarrow> world \<Rightarrow> unit outcome \<times> world" where
  "fetchEntry_body self e specifier w =
     (if ''package:'' @ specifier \<in> visited w then (Resolved (), w)
      else catch_all
        (let baseUrl = ''https://esm.sh/'' @ specifier in
         case fetch e HEAD baseUrl (markVisited (''package:'' @ specifier) w) of
           (None, w1) \<Rightarrow> (Rejected ''fetch failed'', w1)
         | (Some resp, w1) \<Rightarrow>
             if \<not> ok resp then (Resolved (), w1)
             else if truthy (header resp ''X-TypeScript-Types'') then
               (case resolveUrl e (the (header resp ''X-TypeScript-Types'')) baseUrl of
                  None \<Rightarrow> (Rejected ''invalid URL'', w1)
                | Some typesUrl \<Rightarrow> self (ProcessFile typesUrl (Some specifier)) w1)
             else self (ProcessFile (''https://esm.sh/'' @ specifier @ ''?dts'') (Some specifier)) w1))"

primrec walk :: "nat \<Rightarrow> env \<Rightarrow> walker" where
  "walk 0 e = (\<lambda>c w. (Diverged, w))"
| "walk (Suc n) e = (\<lambda>c w.
     case c of
       ProcessFile url packageName \<Rightarrow> processFile_body (walk n e) e url packageName w
     | FetchEntry specifier \<Rightarrow> fetchEntry_body (walk n e) e specifier w)"

definition processFile :: "nat \<Rightarrow> env \<Rightarrow> string \<Rightarrow> string option \<Rightarrow> world \<Rightarrow> unit outcome \<times> world" where
  "processFile n e url packageName w = walk n e (ProcessFile url packageName) w"

definition fetchEntry :: "nat \<Rightarrow> env \<Rightarrow> string \<Rightarrow> world \<Rightarrow> unit outcome \<times> world" where
  "fetchEntry n e specifier w = walk n e (FetchEntry specifier) w"

definition fetchAndAddTypes :: "nat \<Rightarrow> env \<Rightarrow> string \<Rightarrow> world \<Rightarrow> unit outcome \<times> world" where
  "fetchAndAddTypes n e packageSpecifier w = fetchEntry n e packageSpecifier w"

subsection \<open>The load coordinator (IntelliSenseManager, lines 85-300)\<close>

record IntelliSenseConfig =
  enableCache :: bool
  enableAutoLoading :: bool
  supportedLibraries :: "string list"
  debounceMs :: nat
  maxConcurrentLoads :: nat

definition default_config :: IntelliSenseConfig where
  "default_config = \<lparr>enableCache = True, enableAutoLoading = True,
     supportedLibraries =
       [''react'', ''react-dom'', ''react-router'', ''react-router-dom'', ''react-query'',
        ''@tanstack/react-query'', ''react-hook-form'', ''formik'',
        ''zustand'', ''redux'', ''@reduxjs/toolkit'', ''mobx'', ''jotai'', ''recoil'',
        ''styled-components'', ''@emotion/react'', ''@emotion/styled'', ''tailwindcss'',
        ''classnames'', ''clsx'',
        ''lodash'', ''lodash-es'', ''ramda'', ''immer'', ''date-fns'', ''moment'', ''dayjs'',
        ''axios'', ''fetch'', ''ky'', ''swr'',
        ''framer-motion'', ''react-spring'', ''react-transition-group'',
        ''yup'', ''zod'', ''joi'', ''ajv'',
        ''jest'', ''@testing-library/react'', ''@testing-library/jest-dom'', ''vitest'',
        ''uuid'', ''nanoid'', ''crypto-js'', ''js-cookie'',
        ''@mui/material'', ''antd'', ''react-bootstrap'', ''chakra-ui'', ''@vapor-ui/core'',
        ''vapor-ui'',
        ''typescript'', ''eslint'', ''prettier''],
     debounceMs = 1000, maxConcurrentLoads = 3\<rparr>"

text \<open>
  \<^verbatim>\<open>loadLibrary\<close> (lines 220-247), cut at its \<^verbatim>\<open>await\<close>. The head (lines 221-233)
  returns at once for a name that is loaded or loading and for a name that is not on
  the allow-list, and else puts the name into the loading set (\<open>None\<close>: it goes on
  to the \<^verbatim>\<open>await\<close>). The tail (lines 238-246) runs when the promise of
  \<^verbatim>\<open>fetchAndAddTypes\<close> has settled; its \<^verbatim>\<open>finally\<close> block runs on both exits of the
  \<^verbatim>\<open>try\<close>.
\<close>

definition loadLibrary_head :: "IntelliSenseConfig \<Rightarrow> string \<Rightarrow> world \<Rightarrow> bool option \<times> world" where
  "loadLibrary_head cfg libraryName w =
     (if libraryName \<in> loadedModules w \<or> libraryName \<in> loadingQueue w then (Some True, w)
      else if libraryName \<notin> set (supportedLibraries cfg) then (Some False, w)
      else (None, w\<lparr>loadingQueue := insert libraryName (loadingQueue w)\<rparr>))"

definition loadLibrary_tail :: "string \<Rightarrow> unit outcome \<times> world \<Rightarrow> bool outcome \<times> world" where
  "loadLibrary_tail libraryName settled =
     (case settled of
        (Resolved u, w1) \<Rightarrow>
          (Resolved True,
           w1\<lparr>loadedModules := insert libraryName (loadedModules w1),
               loadingQueue := loadingQueue w1 - {libraryName}\<rparr>)
      | (Rejected err, w1) \<Rightarrow>
          (Resolved False, w1\<lparr>loadingQueue := loadingQueue w1 - {libraryName}\<rparr>)
      | (Diverged, w1) \<Rightarrow> (Diverged, w1))"

text \<open>One load from start to end, with nothing else running in between.\<close>

definition loadLibrary ::
  "nat \<Rightarrow> IntelliSenseConfig \<Rightarrow> env \<Rightarrow> string \<Rightarrow> world \<Rightarrow> bool outcome \<times> world" where
  "loadLibrary n cfg e libraryName w =
     (case loadLibrary_head cfg libraryName w of
        (Some returned, w0) \<Rightarrow> (Resolved returned, w0)
      | (None, w0) \<Rightarrow> loadLibrary_tail libraryName (fetchAndAddTypes n e libraryName w0))"

text \<open>
  \<^verbatim>\<open>loadLibraries\<close> (lines 252-268) starts the loads of all names before it awaits
  any, and \<^verbatim>\<open>Promise.allSettled\<close> turns a rejected load into \<^verbatim>\<open>success: false\<close>.
  Here the loads run in the order of the list, one after the other. What this leaves
  out of a run of the source is the order in which the requests of different loads
  are issued, and which of two loads first records a marker that both come to. The
  flags depend on neither: whatever the interleaving, a call of \<^verbatim>\<open>loadLibrary\<close> for a
  name on the allow-list never yields \<open>False\<close> (see Claim C2).
\<close>

fun loadLibraries ::
  "nat \<Rightarrow> IntelliSenseConfig \<Rightarrow> env \<Rightarrow> string list \<Rightarrow> world
     \<Rightarrow> (string \<times> bool) list outcome \<times> world" where
  "loadLibraries n cfg e [] w = (Resolved [], w)"
| "loadLibraries n cfg e (lib # libs) w =
     (case loadLibrary n cfg e lib w of
        (Diverged, w1) \<Rightarrow> (Diverged, w1)
      | (settled, w1) \<Rightarrow>
          (case loadLibraries n cfg e libs w1 of
             (Resolved results, w2) \<Rightarrow>
               (Resolved ((lib, (case settled of Resolved success \<Rightarrow> success | _ \<Rightarrow> False)) # results), w2)
           | r \<Rightarrow> r))"


function chunkArray :: "'a list \<Rightarrow> nat \<Rightarrow> 'a list list option" where
  "chunkArray array chunkSize =
     (if array = [] then Some []
      else if chunkSize = 0 then None
      else map_option (Cons (take chunkSize array)) (chunkArray (drop chunkSize array) chunkSize))"
  by pat_completeness auto
termination
  by (relation "measure (\<lambda>(array, chunkSize). length array)") auto

declare chunkArray.simps [simp del]

fun load_chunks ::
  "nat \<Rightarrow> IntelliSenseConfig \<Rightarrow> env \<Rightarrow> string list list \<Rightarrow> world \<Rightarrow> unit outcome \<times> world" where
  "load_chunks n cfg e [] w = (Resolved (), w)"
| "load_chunks n cfg e (chunk # chunks) w =
     (case loadLibraries n cfg e chunk w of
        (Resolved results, w1) \<Rightarrow> load_chunks n cfg e chunks w1
      | (Rejected err, w1) \<Rightarrow> (Rejected err, w1)
      | (Diverged, w1) \<Rightarrow> (Diverged, w1))"

text \<open>
  \<^verbatim>\<open>TypeCache.clear\<close> (README.md part, lines 231-243) and \<^verbatim>\<open>clearCache\<close> of the
  coordinator (lines 395-399), the one operation that resets load states. It does not
  touch the visited set of the walker.
\<close>

definition TypeCache_clear :: "world \<Rightarrow> world" where
  "TypeCache_clear w =
     w\<lparr>localStorage := foldl (\<lambda>ls key. removeItem key ls) (localStorage w)
          (filter (\<lambda>key. startsWith key CACHE_PREFIX) (map fst (localStorage w)))\<rparr>"

definition clearCache :: "world \<Rightarrow> world" where
  "clearCache w = (TypeCache_clear w)\<lparr>loadedModules := {}\<rparr>"

subsection \<open>What a load can reach\<close>

text \<open>
  For the termination of a load: a coarse bound first. \<open>texts e\<close> are all declaration
  texts the environment could ever hand out (any body of any response, any content
  of any record that \<^verbatim>\<open>JSON.parse\<close> accepts), \<open>reach e spec\<close> the calls a load of
  \<open>spec\<close> can lead to when any of these texts may turn up at any URL, and \<open>marker\<close>
  the visited marker of a call.
\<close>

definition texts :: "env \<Rightarrow> string set" where
  "texts e = {t. (\<exists>n url res. respond e n GET url = Some res \<and> body res = Some t)
               \<or> (\<exists>v parsed. JSON_parse e v = Some parsed \<and> content parsed = t)}"

inductive_set reach :: "env \<Rightarrow> string \<Rightarrow> call set" for e :: env and spec :: string where
  root: "FetchEntry spec \<in> reach e spec"
| types_header:
    "FetchEntry s \<in> reach e spec \<Longrightarrow>
     respond e n HEAD (''https://esm.sh/'' @ s) = Some resp \<Longrightarrow>
     header resp ''X-TypeScript-Types'' = Some h \<Longrightarrow>
     resolveUrl e h (''https://esm.sh/'' @ s) = Some typesUrl \<Longrightarrow>
     ProcessFile typesUrl (Some s) \<in> reach e spec"
| fallback:
    "FetchEntry s \<in> reach e spec \<Longrightarrow>
     ProcessFile (''https://esm.sh/'' @ s @ ''?dts'') (Some s) \<in> reach e spec"
| reference:
    "ProcessFile url pkg \<in> reach e spec \<Longrightarrow> src \<in> texts e \<Longrightarrow>
     ref \<in> set (fst (preProcessFile e src)) \<Longrightarrow>
     resolveUrl e ref (normalizeTypeUrl url) = Some child \<Longrightarrow>
     ProcessFile (normalizeTypeUrl child) None \<in> reach e spec"
| relative_import:
    "ProcessFile url pkg \<in> reach e spec \<Longrightarrow> src \<in> texts e \<Longrightarrow>
     name \<in> set (snd (preProcessFile e src)) \<Longrightarrow> startsWith name ''.'' \<Longrightarrow>
     resolveUrl e name (normalizeTypeUrl url) = Some child \<Longrightarrow>
     ProcessFile (normalizeTypeUrl child) None \<in> reach e spec"
| bare_import:
    "ProcessFile url pkg \<in> reach e spec \<Longrightarrow> src \<in> texts e \<Longrightarrow>
     name \<in> set (snd (preProcessFile e src)) \<Longrightarrow> \<not> startsWith name ''.'' \<Longrightarrow>
     \<not> str_includes name ''/'' \<Longrightarrow>
     FetchEntry name \<in> reach e spec"

fun marker :: "call \<Rightarrow> string" where
  "marker (ProcessFile url pkg) = normalizeTypeUrl url"
| "marker (FetchEntry s) = ''package:'' @ s"

text \<open>
  The dependency graph proper, for a load that starts with the storage \<open>ls\<close>. The
  text that \<^verbatim>\<open>processFile\<close> gets for a URL is a body the network serves for that URL
  (\<open>net_texts\<close>), or the content of a record found under the cache key of the URL:
  a record of \<open>ls\<close>, or one that the load has written itself, after a download
  (\<open>written\<close>; two URLs can share a cache key, since the key replaces every character
  that is not alphanumeric). \<open>reach_from e ls spec\<close> are the calls a load of \<open>spec\<close>
  can lead to, and \<open>stored_within\<close> says that the storage holds nothing but records
  of these two kinds.
\<close>

definition net_texts :: "env \<Rightarrow> string \<Rightarrow> string set" where
  "net_texts e url = {t. \<exists>n res. respond e n GET url = Some res \<and> body res = Some t}"

definition written :: "env \<Rightarrow> (string \<times> string) set" where
  "written e = {(getCacheKey url, JSON_stringify e info) | url info. content info \<in> net_texts e url}"

definition cache_texts :: "env \<Rightarrow> (string \<times> string) list \<Rightarrow> string \<Rightarrow> string set" where
  "cache_texts e ls url =
     {content parsed | parsed v.
        ((getCacheKey url, v) \<in> set ls \<or> (getCacheKey url, v) \<in> written e)
        \<and> JSON_parse e v = Some parsed}"

definition avail :: "env \<Rightarrow> (string \<times> string) list \<Rightarrow> string \<Rightarrow> string set" where
  "avail e ls url = net_texts e url \<union> cache_texts e ls url"

inductive_set reach_from :: "env \<Rightarrow> (string \<times> string) list \<Rightarrow> string \<Rightarrow> call set"
  for e :: env and ls :: "(string \<times> string) list" and spec :: string where
  root: "FetchEntry spec \<in> reach_from e ls spec"
| types_header:
    "FetchEntry s \<in> reach_from e ls spec \<Longrightarrow>
     respond e n HEAD (''https://esm.sh/'' @ s) = Some resp \<Longrightarrow>
     header resp ''X-TypeScript-Types'' = Some h \<Longrightarrow>
     resolveUrl e h (''https://esm.sh/'' @ s) = Some typesUrl \<Longrightarrow>
     ProcessFile typesUrl (Some s) \<in> reach_from e ls spec"
| fallback:
    "FetchEntry s \<in> reach_from e ls spec \<Longrightarrow>
     ProcessFile (''https://esm.sh/'' @ s @ ''?dts'') (Some s) \<in> reach_from e ls spec"
| reference:
    "ProcessFile url pkg \<in> reach_from e ls spec \<Longrightarrow> src \<in> avail e ls (normalizeTypeUrl url) \<Longrightarrow>
     ref \<in> set (fst (preProcessFile e src)) \<Longrightarrow>
     resolveUrl e ref (normalizeTypeUrl url) = Some child \<Longrightarrow>
     ProcessFile (normalizeTypeUrl child) None \<in> reach_from e ls spec"
| relative_import:
    "ProcessFile url pkg \<in> reach_from e ls spec \<Longrightarrow> src \<in> avail e ls (normalizeTypeUrl url) \<Longrightarrow>
     name \<in> set (snd (preProcessFile e src)) \<Longrightarrow> startsWith name ''.'' \<Longrightarrow>
     resolveUrl e name (normalizeTypeUrl url) = Some child \<Longrightarrow>
     ProcessFile (normalizeTypeUrl child) None \<in> reach_from e ls spec"
| bare_import:
    "ProcessFile url pkg \<in> reach_from e ls spec \<Longrightarrow> src \<in> avail e ls (normalizeTypeUrl url) \<Longrightarrow>
     name \<in> set (snd (preProcessFile e src)) \<Longrightarrow> \<not> startsWith name ''.'' \<Longrightarrow>
     \<not> str_includes name ''/'' \<Longrightarrow>
     FetchEntry name \<in> reach_from e ls spec"

definition stored_within :: "env \<Rightarrow> (string \<times> string) list \<Rightarrow> world \<Rightarrow> bool" where
  "stored_within e ls w \<longleftrightarrow> set (localStorage w) \<subseteq> set ls \<union> written e"

text \<open>
  Two properties of a walker used as \<open>self\<close>: it settles every valid call made in a
  sound world with fewer than \<open>k\<close> markers left to visit, and leaves the world sound;
  and it leaves the sets of the coordinator alone.
\<close>

definition good_walker ::
  "string set \<Rightarrow> (call \<Rightarrow> bool) \<Rightarrow> (world \<Rightarrow> bool) \<Rightarrow> walker \<Rightarrow> nat \<Rightarrow> bool" where
  "good_walker U valid sound self k \<longleftrightarrow>
     (\<forall>c w. valid c \<longrightarrow> sound w \<longrightarrow> card (U - visited w) < k \<longrightarrow>
        fst (self c w) = Resolved () \<and> visited w \<subseteq> visited (snd (self c w))
        \<and> sound (snd (self c w)))"

definition keeps_sets :: "walker \<Rightarrow> bool" where
  "keeps_sets self \<longleftrightarrow>
     (\<forall>c w. loadingQueue (snd (self c w)) = loadingQueue w
          \<and> loadedModules (snd (self c w)) = loadedModules w)"


text \<open>
  A registry that knows the package \<^verbatim>\<open>good\<close>, with one declaration file without
  dependencies, and rejects every other request; and a configuration whose allow-list
  has the two names of the batch example.
\<close>

definition registry_env :: env where
  "registry_env = demo_env\<lparr>
     respond := (\<lambda>n m url.
       if m = HEAD \<and> url = ''https://esm.sh/good''
       then Some \<lparr>ok = True, statusText = ''OK'',
                   header = [''X-TypeScript-Types'' \<mapsto> ''https://esm.sh/v135/good/index.d.ts''],
                   body = Some []\<rparr>
       else if m = GET \<and> url = ''https://esm.sh/v135/good/index.d.ts''
       then Some \<lparr>ok = True, statusText = ''OK'', header = Map.empty,
                   body = Some ''export declare const good: number;''\<rparr>
       else None),
     resolveUrl := (\<lambda>rel base. if startsWith rel ''https://'' then Some rel else None)\<rparr>"

definition registry_config :: IntelliSenseConfig where
  "registry_config = default_config\<lparr>supportedLibraries := [''good'', ''bad-unreachable'']\<rparr>"

subsection \<open>Interleaved loads\<close>

text \<open>
  \<^verbatim>\<open>processFile\<close> and \<^verbatim>\<open>fetchEntry\<close> are \<^verbatim>\<open>async\<close>: a call runs until its first
  \<^verbatim>\<open>await\<close> and hands control back, so the calls of several loads started from the
  same page interleave at the suspension points, all reading and writing the one
  visited set of \<^verbatim>\<open>globalVFS\<close>. The walker above runs one load to its end; the model
  below runs any number of them, one suspension point at a time.

  An \<open>event\<close> is something a call does for a marker: it records the marker
  (\<^verbatim>\<open>markVisited\<close>), asks the cache for the text of the URL, lets the cache probe the
  server for the stored tag (the \<^verbatim>\<open>HEAD\<close> request of \<^verbatim>\<open>validateETag\<close>), downloads the
  URL (\<^verbatim>\<open>fetch(url)\<close>, line 96), stores the download in the cache, or resolves a
  package (the \<^verbatim>\<open>HEAD\<close> request of \<^verbatim>\<open>fetchEntry\<close>, line 194).
\<close>

datatype event =
    Marked string
  | CacheGet string
  | CacheProbe string
  | Download string
  | CacheSet string
  | ResolveHead string

fun marker_of :: "event \<Rightarrow> string" where
  "marker_of (Marked m) = m"
| "marker_of (CacheGet url) = url"
| "marker_of (CacheProbe url) = url"
| "marker_of (Download url) = url"
| "marker_of (CacheSet url) = url"
| "marker_of (ResolveHead specifier) = ''package:'' @ specifier"

text \<open>
  A \<open>frame\<close> is a suspended call: the \<^verbatim>\<open>await\<close> it waits at, with the local
  variables that are still live. \<^verbatim>\<open>processFile\<close> waits for the cache (first for the
  probe of the cache, if the cache makes one), for the response of the download, for
  its body, for \<^verbatim>\<open>globalTypeCache.set\<close>, and for each child of the two loops;
  \<^verbatim>\<open>fetchEntry\<close> waits for the response of its \<^verbatim>\<open>HEAD\<close> request and for the
  \<^verbatim>\<open>processFile\<close> it starts. An \<open>input\<close> is what the awaited promise settles with.
\<close>

datatype frame =
    PF_cache string "string option" bool
  | PF_fetch string "string option"
  | PF_text string "string option"
  | PF_set string "string option" string
  | PF_refs string "string list" "string list"
  | PF_imports string "string list"
  | FE_head string
  | FE_child string

datatype input = Tick | Text "string option" | Resp "http_response option" | Body "string option"

type_synonym segment = "string set \<times> event list \<times> frame list"

text \<open>
  The synchronous head of \<^verbatim>\<open>processFile\<close> (lines 79-91) and of \<^verbatim>\<open>fetchEntry\<close>
  (lines 186-194): normalise, return if the marker is there, else record it and go
  on to the first request. It yields the new visited set, the events it emitted and
  the frame it suspends in (\<open>None\<close>: it has returned). Whether the cache holds a
  record with a tag, and so probes the server, is not the walker's to decide:
  \<open>probe\<close> is left open.
\<close>

definition start_processFile ::
  "bool \<Rightarrow> string \<Rightarrow> string option \<Rightarrow> string set \<Rightarrow> string set \<times> event list \<times> frame option" where
  "start_processFile probe url0 packageName v =
     (let url = normalizeTypeUrl url0 in
      if url \<in> v then (v, [], None)
      else (insert url v,
            [Marked url, CacheGet url] @ (if probe then [CacheProbe url] else []),
            Some (PF_cache url packageName probe)))"

definition start_fetchEntry ::
  "string \<Rightarrow> string set \<Rightarrow> string set \<times> event list \<times> frame option" where
  "start_fetchEntry specifier v =
     (if ''package:'' @ specifier \<in> v then (v, [], None)
      else (insert (''package:'' @ specifier) v,
            [Marked (''package:'' @ specifier), ResolveHead specifier],
            Some (FE_head specifier)))"

text \<open>
  \<^verbatim>\<open>await child(...)\<close>: the caller is suspended under the callee, or alone when the
  callee has returned at once (an \<^verbatim>\<open>await\<close> always yields).
\<close>

definition await_call :: "string set \<times> event list \<times> frame option \<Rightarrow> frame \<Rightarrow> segment" where
  "await_call started parent =
     (case started of
        (v, evs, None) \<Rightarrow> (v, evs, [parent])
      | (v, evs, Some callee) \<Rightarrow> (v, evs, [callee, parent]))"

text \<open>
  The two loops over \<^verbatim>\<open>info.referencedFiles\<close> (lines 152-157) and
  \<^verbatim>\<open>info.importedFiles\<close> (lines 160-177), run up to their next \<^verbatim>\<open>await\<close>. A throwing
  \<^verbatim>\<open>new URL\<close> ends the call in its \<^verbatim>\<open>catch\<close>.
\<close>

fun continue_imports :: "env \<Rightarrow> bool \<Rightarrow> string \<Rightarrow> string list \<Rightarrow> string set \<Rightarrow> segment" where
  "continue_imports e probe url [] v = (v, [], [])"
| "continue_imports e probe url (fileName # rest) v =
     (if startsWith fileName ''.'' then
        (case resolveUrl e fileName url of
           None \<Rightarrow> (v, [], [])
         | Some child \<Rightarrow>
             await_call (start_processFile probe (normalizeTypeUrl child) None v) (PF_imports url rest))
      else if \<not> str_includes fileName ''/'' then
        await_call (start_fetchEntry fileName v) (PF_imports url rest)
      else continue_imports e probe url rest v)"

definition continue_refs ::
  "env \<Rightarrow> bool \<Rightarrow> string \<Rightarrow> string list \<Rightarrow> string list \<Rightarrow> string set \<Rightarrow> segment" where
  "continue_refs e probe url refs imports v =
     (case refs of
        [] \<Rightarrow> continue_imports e probe url imports v
      | ref # rest \<Rightarrow>
          (case resolveUrl e ref url of
             None \<Rightarrow> (v, [], [])
           | Some child \<Rightarrow>
               await_call (start_processFile probe (normalizeTypeUrl child) None v)
                 (PF_refs url rest imports)))"

definition after_text :: "env \<Rightarrow> bool \<Rightarrow> string \<Rightarrow> string \<Rightarrow> string set \<Rightarrow> segment" where
  "after_text e probe url text v =
     continue_refs e probe url (fst (preProcessFile e text)) (snd (preProcessFile e text)) v"

text \<open>
  \<open>resume\<close> runs the call on top of a stack from the \<^verbatim>\<open>await\<close> it waits at to its next
  one, given what the promise settled with; it yields the frames that replace the
  resumed one (none: the call has returned, by \<^verbatim>\<open>return\<close> or through its \<^verbatim>\<open>catch\<close>).
  \<open>None\<close> says the input is not one this \<^verbatim>\<open>await\<close> can receive.
\<close>

fun resume :: "env \<Rightarrow> bool \<Rightarrow> input \<Rightarrow> frame \<Rightarrow> string set \<Rightarrow> segment option" where
  "resume e probe (Resp r) (PF_cache url pkg True) v = Some (v, [], [PF_cache url pkg False])"
| "resume e probe (Text cached) (PF_cache url pkg False) v =
     Some (if truthy cached then after_text e probe url (the cached) v
           else (v, [Download url], [PF_fetch url pkg]))"
| "resume e probe (Resp None) (PF_fetch url pkg) v = Some (v, [], [])"
| "resume e probe (Resp (Some res)) (PF_fetch url pkg) v =
     Some (if \<not> ok res then (v, [], []) else (v, [], [PF_text url pkg]))"
| "resume e probe (Body None) (PF_text url pkg) v = Some (v, [], [])"
| "resume e probe (Body (Some text)) (PF_text url pkg) v =
     Some (v, [CacheSet url], [PF_set url pkg text])"
| "resume e probe Tick (PF_set url pkg text) v = Some (after_text e probe url text v)"
| "resume e probe Tick (PF_refs url refs imports) v = Some (continue_refs e probe url refs imports v)"
| "resume e probe Tick (PF_imports url imports) v = Some (continue_imports e probe url imports v)"
| "resume e probe (Resp None) (FE_head specifier) v = Some (v, [], [])"
| "resume e probe (Resp (Some resp)) (FE_head specifier) v =
     Some (if \<not> ok resp then (v, [], [])
           else if truthy (header resp ''X-TypeScript-Types'') then
             (case resolveUrl e (the (header resp ''X-TypeScript-Types'')) (''https://esm.sh/'' @ specifier) of
                None \<Rightarrow> (v, [], [])
              | Some typesUrl \<Rightarrow>
                  await_call (start_processFile probe typesUrl (Some specifier) v) (FE_child specifier))
           else await_call
                  (start_processFile probe (''https://esm.sh/'' @ specifier @ ''?dts'') (Some specifier) v)
                  (FE_child specifier))"
| "resume e probe Tick (FE_child specifier) v = Some (v, [], [])"
| "resume e probe i f v = None"

text \<open>
  A page holds the visited set, the events so far, and one stack of suspended calls
  for each load that was started. A step starts a new load (any \<^verbatim>\<open>fetchEntry\<close>; also
  any \<^verbatim>\<open>processFile\<close>, more than the module exports), or settles the promise that
  the top of some stack waits for, with any input.
\<close>

record page =
  seen :: "string set"
  trace :: "event list"
  chains :: "frame list list"

definition initial_page :: page where
  "initial_page = \<lparr>seen = {}, trace = [], chains = []\<rparr>"

inductive step :: "env \<Rightarrow> page \<Rightarrow> page \<Rightarrow> bool" for e :: env where
  call_processFile:
    "start_processFile probe url packageName (seen s) = (v, evs, started) \<Longrightarrow>
     step e s \<lparr>seen = v, trace = trace s @ evs,
               chains = chains s @ [case started of None \<Rightarrow> [] | Some f \<Rightarrow> [f]]\<rparr>"
| call_fetchEntry:
    "start_fetchEntry specifier (seen s) = (v, evs, started) \<Longrightarrow>
     step e s \<lparr>seen = v, trace = trace s @ evs,
               chains = chains s @ [case started of None \<Rightarrow> [] | Some f \<Rightarrow> [f]]\<rparr>"
| resume_chain:
    "chains s = before @ (f # stack) # after \<Longrightarrow>
     resume e probe i f (seen s) = Some (v, evs, pushed) \<Longrightarrow>
     step e s \<lparr>seen = v, trace = trace s @ evs, chains = before @ (pushed @ stack) # after\<rparr>"

inductive reachable :: "env \<Rightarrow> page \<Rightarrow> bool" for e :: env where
  at_start: "reachable e initial_page"
| after_step: "reachable e s \<Longrightarrow> step e s s' \<Longrightarrow> reachable e s'"

text \<open>
  What a suspended \<^verbatim>\<open>processFile\<close> may still emit for its own URL without recording
  a marker again. The ledger of a page counts the events emitted and these; no event
  is ever counted twice in it.
\<close>

fun owned :: "frame \<Rightarrow> event list" where
  "owned (PF_cache url pkg probe) = [Download url, CacheSet url]"
| "owned (PF_fetch url pkg) = [CacheSet url]"
| "owned (PF_text url pkg) = [CacheSet url]"
| "owned f = []"

definition owed :: "frame list \<Rightarrow> event multiset" where
  "owed fs = mset (concat (map owned fs))"

definition ledger :: "page \<Rightarrow> event multiset" where
  "ledger s = mset (trace s) + owed (concat (chains s))"

definition marked :: "event list \<Rightarrow> string set" where
  "marked evs = {m. Marked m \<in> set evs}"

text \<open>
  \<open>well_marked v evs\<close>: every event of \<open>evs\<close> that is not itself the recording of a
  marker comes after its marker was recorded (in \<open>evs\<close>, or before, in \<open>v\<close>).
\<close>

fun well_marked :: "string set \<Rightarrow> event list \<Rightarrow> bool" where
  "well_marked v [] = True"
| "well_marked v (Marked m # evs) = well_marked (insert m v) evs"
| "well_marked v (ev # evs) = (marker_of ev \<in> v \<and> well_marked v evs)"

definition seg_ok :: "string set \<Rightarrow> event multiset \<Rightarrow> segment \<Rightarrow> bool" where
  "seg_ok v L seg \<longleftrightarrow>
     (case seg of (v', evs, new) \<Rightarrow>
        v' = v \<union> marked evs \<and> well_marked v evs \<and>
        (\<exists>fresh. mset evs + owed new \<subseteq># L + fresh
           \<and> (\<forall>ev\<in>#fresh. marker_of ev \<in> v' \<and> marker_of ev \<notin> v)
           \<and> (\<forall>ev. count fresh ev \<le> 1)))"

definition invariant :: "page \<Rightarrow> bool" where
  "invariant s \<longleftrightarrow>
     (\<forall>ev. count (ledger s) ev \<le> 1) \<and> (\<forall>ev\<in>#ledger s. marker_of ev \<in> seen s)
     \<and> well_marked {} (trace s) \<and> seen s = marked (trace s)"

text \<open>
  A run of four calls on one page: \<^verbatim>\<open>fetchEntry("react")\<close>; the same again before
  the first has an answer; the answer (no types header, so the fallback URL is
  processed); a \<^verbatim>\<open>processFile\<close> of that very URL while the first waits for the cache;
  a cache miss; the download fails; and one more \<^verbatim>\<open>processFile\<close> of the URL after the
  failure.
\<close>

definition ok_response :: http_response where
  "ok_response = \<lparr>ok = True, statusText = ''OK'', header = Map.empty, body = Some []\<rparr>"

definition page1 :: page where
  "page1 = \<lparr>seen = {''package:react''},
     trace = [Marked ''package:react'', ResolveHead ''react''],
     chains = [[FE_head ''react'']]\<rparr>"

definition page2 :: page where
  "page2 = page1\<lparr>chains := [[FE_head ''react''], []]\<rparr>"

definition page3 :: page where
  "page3 = \<lparr>seen = {''https://esm.sh/react?dts'', ''package:react''},
     trace = [Marked ''package:react'', ResolveHead ''react'',
              Marked ''https://esm.sh/react?dts'', CacheGet ''https://esm.sh/react?dts''],
     chains = [[PF_cache ''https://esm.sh/react?dts'' (Some ''react'') False, FE_child ''react''], []]\<rparr>"

definition page4 :: page where
  "page4 = page3\<lparr>chains := chains page3 @ [[]]\<rparr>"

definition page5 :: page where
  "page5 = \<lparr>seen = {''https://esm.sh/react?dts'', ''package:react''},
     trace = [Marked ''package:react'', ResolveHead ''react'',
              Marked ''https://esm.sh/react?dts'', CacheGet ''https://esm.sh/react?dts'',
              Download ''https://esm.sh/react?dts''],
     chains = [[PF_fetch ''https://esm.sh/react?dts'' (Some ''react''), FE_child ''react''], [], []]\<rparr>"

definition page6 :: page where
  "page6 = page5\<lparr>chains := [[FE_child ''react''], [], []]\<rparr>"

definition page7 :: page where
  "page7 = page6\<lparr>chains := [[FE_child ''react''], [], [], []]\<rparr>"

subsection \<open>Load states under interleaving\<close>

text \<open>
  \<^verbatim>\<open>loadLibrary\<close> is \<^verbatim>\<open>async\<close> as well, and \<^verbatim>\<open>analyzeAndLoadTypes\<close> is started from a
  timer while earlier loads are still running. The state a load is in can only be seen
  between the suspension points, so the coordinator is put on top of the
  interleaving model of the walker: \<open>marks\<close> and \<open>events\<close> are the visited set and the
  events of the walker, \<open>loading\<close> and \<open>loaded\<close> are \<^verbatim>\<open>loadingQueue\<close> and
  \<^verbatim>\<open>loadedModules\<close>, and \<open>loads\<close> holds, for every call of the walker made so far,
  the \<^verbatim>\<open>loadLibrary\<close> that waits for it at its \<^verbatim>\<open>await\<close> (by the name it loads;
  \<open>None\<close> when the walker was called from elsewhere, and when the load has settled)
  and the stack of walker calls that are still suspended.
\<close>

record manager =
  marks :: "string set"
  events :: "event list"
  loading :: "string set"
  loaded :: "string set"
  loads :: "(string option \<times> frame list) list"

definition initial_manager :: manager where
  "initial_manager = \<lparr>marks = {}, events = [], loading = {}, loaded = {}, loads = []\<rparr>"

text \<open>
  \<^verbatim>\<open>loadLibrary\<close> up to its \<^verbatim>\<open>await\<close> (lines 220-237): the two early returns, else
  the name is put into the loading set and \<^verbatim>\<open>fetchAndAddTypes\<close> is called, which
  runs \<^verbatim>\<open>fetchEntry\<close> up to its first \<^verbatim>\<open>await\<close>. The result is the value the promise
  has at once (\<open>None\<close>: it is pending). \<open>settle_loadLibrary\<close> is the rest (lines
  238-246), run when the walker has returned: the name is added to the loaded set,
  and the \<^verbatim>\<open>finally\<close> block takes it out of the loading set. The promise of
  \<^verbatim>\<open>fetchAndAddTypes\<close> does not reject (every failure ends in a \<^verbatim>\<open>catch\<close> of the
  walker, where the suspended call returns), so the \<^verbatim>\<open>catch\<close> of \<^verbatim>\<open>loadLibrary\<close> has
  no transition.
\<close>

definition begin_loadLibrary :: "IntelliSenseConfig \<Rightarrow> string \<Rightarrow> manager \<Rightarrow> bool option \<times> manager" where
  "begin_loadLibrary cfg libraryName s =
     (if libraryName \<in> loaded s \<or> libraryName \<in> loading s then (Some True, s)
      else if libraryName \<notin> set (supportedLibraries cfg) then (Some False, s)
      else
        (case start_fetchEntry libraryName (marks s) of (v, evs, started) \<Rightarrow>
           (None, s\<lparr>marks := v, events := events s @ evs,
                    loading := insert libraryName (loading s),
                    loads := loads s @
                      [(Some libraryName, case started of None \<Rightarrow> [] | Some f \<Rightarrow> [f])]\<rparr>)))"

definition settle_loadLibrary :: "string \<Rightarrow> manager \<Rightarrow> manager" where
  "settle_loadLibrary libraryName s =
     s\<lparr>loaded := insert libraryName (loaded s), loading := loading s - {libraryName}\<rparr>"

text \<open>
  The names whose load is suspended, and the walker's view of a state.
\<close>

definition pending :: "manager \<Rightarrow> string list" where
  "pending s = List.map_filter fst (loads s)"


text \<open>
  One step of the page: some \<^verbatim>\<open>loadLibrary\<close> is called; the walker is called from
  elsewhere; a promise that the top of some stack waits for settles, with any input;
  a load whose walker has returned is resumed; \<^verbatim>\<open>clearCache\<close> empties the loaded set
  (line 397; the cache it also clears is not part of the state, its answers are
  arbitrary anyway).
\<close>

inductive transition :: "IntelliSenseConfig \<Rightarrow> env \<Rightarrow> manager \<Rightarrow> manager \<Rightarrow> bool"
  for cfg :: IntelliSenseConfig and e :: env where
  call_loadLibrary:
    "transition cfg e s (snd (begin_loadLibrary cfg libraryName s))"
| call_elsewhere:
    "start_fetchEntry specifier (marks s) = (v, evs, started) \<Longrightarrow>
     transition cfg e s
       (s\<lparr>marks := v, events := events s @ evs,
          loads := loads s @ [(None, case started of None \<Rightarrow> [] | Some f \<Rightarrow> [f])]\<rparr>)"
| resume_load:
    "loads s = before @ (owner, f # stack) # after \<Longrightarrow>
     resume e probe i f (marks s) = Some (v, evs, pushed) \<Longrightarrow>
     transition cfg e s
       (s\<lparr>marks := v, events := events s @ evs,
          loads := before @ (owner, pushed @ stack) # after\<rparr>)"
| settle_load:
    "loads s = before @ (Some libraryName, []) # after \<Longrightarrow>
     transition cfg e s
       (settle_loadLibrary libraryName (s\<lparr>loads := before @ (None, []) # after\<rparr>))"
| call_clearCache:
    "transition cfg e s (s\<lparr>loaded := {}\<rparr>)"

inductive attainable :: "IntelliSenseConfig \<Rightarrow> env \<Rightarrow> manager \<Rightarrow> bool"
  for cfg :: IntelliSenseConfig and e :: env where
  initially: "attainable cfg e initial_manager"
| later: "attainable cfg e s \<Longrightarrow> transition cfg e s s' \<Longrightarrow> attainable cfg e s'"





section \<open>Properties of the URL normaliser\<close>

lemma loop_no_dup: "\<not> str_includes (normalizeTypeUrl_loop url) ''.d.ts.d.ts''"
  by (induction url rule: normalizeTypeUrl_loop.induct) (subst normalizeTypeUrl_loop.simps, simp)

lemma loop_id:
  "\<not> str_includes url ''.d.ts.d.ts'' \<Longrightarrow> normalizeTypeUrl_loop url = url"
  by (subst normalizeTypeUrl_loop.simps) simp

lemma sublist_append_cut:
  assumes sub: "sublist (p @ q) (u @ q')" and len: "length q' \<le> length q"
  shows "sublist p u"
proof -
  from sub obtain ps ss where eq: "u @ q' = ps @ (p @ q) @ ss"
    by (auto simp: sublist_def)
  have "length (u @ q') = length (ps @ (p @ q) @ ss)"
    by (rule arg_cong[OF eq])
  with len have le: "length (ps @ p) \<le> length u" by simp
  have "ps @ p = take (length (ps @ p)) (u @ q')"
    unfolding eq by simp
  also have "\<dots> = take (length (ps @ p)) u"
    using le by simp
  finally have "prefix (ps @ p) u"
    by (metis take_is_prefix)
  then show ?thesis
    by (auto simp: sublist_def prefix_def)
qed

lemma append_no_dup:
  assumes "\<not> str_includes u ''.ts''"
  shows "\<not> str_includes (u @ ''.d.ts'') ''.d.ts.d.ts''"
proof
  assume "str_includes (u @ ''.d.ts'') ''.d.ts.d.ts''"
  then have "sublist (''.d.ts'' @ ''.d.ts'') (u @ ''.d.ts'')"
    by (simp add: str_includes_sublist)
  then have "sublist ''.d.ts'' u"
    by (rule sublist_append_cut) simp
  moreover have "sublist ''.ts'' (''.d'' @ ''.ts'' @ [])"
    by (rule sublist_appendI)
  ultimately have "sublist ''.ts'' u"
    by (auto intro: sublist_order.order_trans)
  with assms show False
    by (simp add: str_includes_sublist)
qed

lemma endsWith_append [simp]: "endsWith (u @ p) p"
  by (simp add: endsWith_suffix suffix_def)

lemma normalizeTypeUrl_no_dup: "\<not> str_includes (normalizeTypeUrl url) ''.d.ts.d.ts''"
  using loop_no_dup[of url] append_no_dup[of "normalizeTypeUrl_loop url"]
  by (simp add: normalizeTypeUrl_def Let_def del: str_includes.simps)

text \<open>
  Claim C10. Normalising twice is the same as normalising once: a child URL that a
  parent traversal step has already normalised is not changed when
  \<^verbatim>\<open>processFile\<close> normalises it again.
\<close>

theorem normalizeTypeUrl_idempotent:
  "normalizeTypeUrl (normalizeTypeUrl url) = normalizeTypeUrl url"
proof -
  define u where "u = normalizeTypeUrl_loop url"
  have fx: "normalizeTypeUrl_loop (normalizeTypeUrl url) = normalizeTypeUrl url"
    by (rule loop_id) (rule normalizeTypeUrl_no_dup)
  have outer: "normalizeTypeUrl v =
      (if endsWith v ''.d.ts'' then v
       else if str_includes v ''?'' then v
       else if endsWith v ''/'' \<or> str_includes v ''.ts'' \<or> str_includes v ''.js'' then v
       else v @ ''.d.ts'')" if "normalizeTypeUrl_loop v = v" for v
    using that by (simp add: normalizeTypeUrl_def)
  have inner: "normalizeTypeUrl url =
      (if endsWith u ''.d.ts'' then u
       else if str_includes u ''?'' then u
       else if endsWith u ''/'' \<or> str_includes u ''.ts'' \<or> str_includes u ''.js'' then u
       else u @ ''.d.ts'')"
    by (simp add: normalizeTypeUrl_def u_def)
  show ?thesis
  proof (cases "normalizeTypeUrl url = u")
    case True
    then show ?thesis
      using outer[OF fx] inner by (auto split: if_splits)
  next
    case False
    then have "normalizeTypeUrl url = u @ ''.d.ts''"
      using inner by (auto split: if_splits)
    then show ?thesis
      using outer[OF fx] by simp
  qed
qed

lemma replaceAll_short: "length s < length pat \<Longrightarrow> replaceAll pat rep s = s"
proof (induction s)
  case Nil
  then show ?case by simp
next
  case (Cons c s)
  then have "\<not> startsWith (c # s) pat"
    by (auto simp: startsWith_prefix dest: prefix_length_le)
  with Cons show ?case by simp
qed

lemma suffix_append_long:
  "suffix p (q @ r) \<Longrightarrow> length p \<le> length r \<Longrightarrow> suffix p r"
  by (auto simp: suffix_append)

lemma short_list_cases:
  assumes "length r < 5"
  shows "r = [] \<or> (\<exists>a. r = [a]) \<or> (\<exists>a b. r = [a, b]) \<or> (\<exists>a b c. r = [a, b, c])
     \<or> (\<exists>a b c d. r = [a, b, c, d])"
proof (cases r)
  case Nil
  then show ?thesis by simp
next
  case r: (Cons a r1)
  show ?thesis
  proof (cases r1)
    case Nil
    with r show ?thesis by simp
  next
    case r1: (Cons b r2)
    show ?thesis
    proof (cases r2)
      case Nil
      with r r1 show ?thesis by simp
    next
      case r2: (Cons c r3)
      show ?thesis
      proof (cases r3)
        case Nil
        with r r1 r2 show ?thesis by simp
      next
        case r3: (Cons d r4)
        with assms r r1 r2 have "r4 = []" by simp
        with r r1 r2 r3 show ?thesis by simp
      qed
    qed
  qed
qed

text \<open>
  The extension does not overlap itself: a string that ends in it and starts with
  the doubled extension still ends in it once the doubled extension is cut off.
\<close>

lemma suffix_dts_drop:
  assumes "suffix ''.d.ts'' (''.d.ts.d.ts'' @ r)" and "r \<noteq> []"
  shows "suffix ''.d.ts'' r"
proof (cases "5 \<le> length r")
  case True
  then have "length ''.d.ts'' \<le> length r" by simp
  with assms(1) show ?thesis
    by (rule suffix_append_long)
next
  case False
  then have "length r < 5" by simp
  from short_list_cases[OF this] assms show ?thesis
    by (elim disjE exE) (simp_all add: suffix_Cons)
qed

lemma replaceAll_keeps_dts:
  "endsWith s ''.d.ts'' \<Longrightarrow> endsWith (replaceAll ''.d.ts.d.ts'' ''.d.ts'' s) ''.d.ts''"
proof (induction "''.d.ts.d.ts''" "''.d.ts''" s rule: replaceAll.induct)
  case 1
  then show ?case by simp
next
  case (2 c s)
  show ?case
  proof (cases "startsWith (c # s) ''.d.ts.d.ts''")
    case True
    then obtain r where r: "c # s = ''.d.ts.d.ts'' @ r"
      by (auto simp: startsWith_prefix prefix_def)
    then have dr: "drop (length ''.d.ts.d.ts'') (c # s) = r" by simp
    show ?thesis
    proof (cases "r = []")
      case True
      with r show ?thesis by (simp add: endsWith_suffix suffix_def)
    next
      case False
      have "suffix ''.d.ts'' r"
        using 2(3) False unfolding r endsWith_suffix by (rule suffix_dts_drop)
      then have "endsWith (replaceAll ''.d.ts.d.ts'' ''.d.ts'' r) ''.d.ts''"
        using 2(1) True dr by (simp add: endsWith_suffix)
      then have "endsWith (''.d.ts'' @ replaceAll ''.d.ts.d.ts'' ''.d.ts'' r) ''.d.ts''"
        unfolding endsWith_suffix by (rule suffix_appendI)
      moreover have "replaceAll ''.d.ts.d.ts'' ''.d.ts'' (c # s) =
          ''.d.ts'' @ replaceAll ''.d.ts.d.ts'' ''.d.ts'' (drop (length ''.d.ts.d.ts'') (c # s))"
        using True by simp
      ultimately show ?thesis
        by (simp only: dr)
    qed
  next
    case False
    show ?thesis
    proof (cases "5 \<le> length s")
      case True
      with 2(3) have "endsWith s ''.d.ts''"
        by (auto simp: endsWith_suffix suffix_Cons)
      with 2(2) False have "endsWith (replaceAll ''.d.ts.d.ts'' ''.d.ts'' s) ''.d.ts''" by simp
      then have "endsWith (c # replaceAll ''.d.ts.d.ts'' ''.d.ts'' s) ''.d.ts''"
        unfolding endsWith_suffix by (rule suffix_ConsI)
      moreover have "replaceAll ''.d.ts.d.ts'' ''.d.ts'' (c # s) =
          c # replaceAll ''.d.ts.d.ts'' ''.d.ts'' s"
        using False by (simp del: startsWith.simps)
      ultimately show ?thesis by simp
    next
      case False
      then have "replaceAll ''.d.ts.d.ts'' ''.d.ts'' (c # s) = c # s"
        by (intro replaceAll_short) simp
      with 2(3) show ?thesis by simp
    qed
  qed
qed

lemma loop_keeps_dts:
  "endsWith url ''.d.ts'' \<Longrightarrow> endsWith (normalizeTypeUrl_loop url) ''.d.ts''"
proof (induction url rule: normalizeTypeUrl_loop.induct)
  case (1 url)
  show ?case
  proof (cases "str_includes url ''.d.ts.d.ts''")
    case True
    with 1 show ?thesis
      by (subst normalizeTypeUrl_loop.simps) (simp add: replaceAll_keeps_dts)
  next
    case False
    with 1 show ?thesis
      by (subst normalizeTypeUrl_loop.simps) simp
  qed
qed

lemma no_ts_no_dup:
  assumes "\<not> str_includes url ''.ts''"
  shows "\<not> str_includes url ''.d.ts.d.ts''" and "\<not> endsWith url ''.d.ts''"
proof -
  have a: "sublist ''.ts'' (''.d'' @ ''.ts'' @ ''.d.ts'')"
    and b: "sublist ''.ts'' (''.d'' @ ''.ts'' @ [])"
    by (rule sublist_appendI)+
  show "\<not> str_includes url ''.d.ts.d.ts''"
    using assms a by (auto simp: str_includes_sublist dest: sublist_order.order_trans)
  show "\<not> endsWith url ''.d.ts''"
    using assms b
    by (auto simp: str_includes_sublist endsWith_suffix
        dest: sublist_order.order_trans suffix_imp_sublist)
qed

text \<open>
  Runs of the extension. The extension has no border (no proper prefix of it is also
  a suffix), so a doubled extension cannot begin in the text before a run and end
  inside the run, unless that text itself ends in the extension. One round of the
  loop therefore halves every run at the end of the URL, rounding up, and the loop
  leaves exactly one extension of it.
\<close>

lemma straddle:
  assumes "prefix ''.d.ts.d.ts'' (v @ ''.d.ts'' @ r)" and "v \<noteq> []"
  shows "prefix ''.d.ts.d.ts'' v \<or> v = ''.d.ts''"
  using assms by (auto simp: prefix_append Cons_eq_append_conv)

lemma replaceAll_id: "\<not> str_includes s pat \<Longrightarrow> replaceAll pat rep s = s"
  by (induction s) auto

lemma loop_replaceAll:
  "normalizeTypeUrl_loop (replaceAll ''.d.ts.d.ts'' ''.d.ts'' s) = normalizeTypeUrl_loop s"
proof (cases "str_includes s ''.d.ts.d.ts''")
  case True
  then show ?thesis by (subst (2) normalizeTypeUrl_loop.simps) simp
next
  case False
  then show ?thesis by (simp add: replaceAll_id)
qed

lemma replaceAll_append:
  "\<forall>v. suffix v u \<and> v \<noteq> [] \<and> prefix pat (v @ S) \<longrightarrow> prefix pat v \<Longrightarrow>
   replaceAll pat rep (u @ S) = replaceAll pat rep u @ replaceAll pat rep S"
proof (induction pat rep u rule: replaceAll.induct)
  case (1 pat rep)
  then show ?case by simp
next
  case (2 pat rep c s)
  have sub: "\<forall>v. suffix v s' \<and> v \<noteq> [] \<and> prefix pat (v @ S) \<longrightarrow> prefix pat v"
    if "suffix s' (c # s)" for s'
    using 2(3) that by (meson suffix_order.order_trans)
  show ?case
  proof (cases "pat \<noteq> [] \<and> startsWith ((c # s) @ S) pat")
    case True
    then have p: "prefix pat (c # s)"
      using 2(3) by (auto simp: startsWith_prefix)
    then have len: "length pat \<le> length (c # s)"
      by (rule prefix_length_le)
    have sw: "startsWith (c # s) pat" using p by (simp add: startsWith_prefix)
    have d: "drop (length pat) ((c # s) @ S) = drop (length pat) (c # s) @ S"
      unfolding drop_append using len by simp
    have "replaceAll pat rep (drop (length pat) (c # s) @ S)
        = replaceAll pat rep (drop (length pat) (c # s)) @ replaceAll pat rep S"
      using True sw by (intro 2(1) sub) (auto simp: suffix_drop)
    moreover have "replaceAll pat rep ((c # s) @ S)
        = rep @ replaceAll pat rep (drop (length pat) ((c # s) @ S))"
      using True by (simp del: startsWith.simps drop_append)
    moreover have "replaceAll pat rep (c # s) = rep @ replaceAll pat rep (drop (length pat) (c # s))"
      using True sw by (simp del: startsWith.simps)
    ultimately show ?thesis by (simp only: d append_assoc)
  next
    case False
    then have nsw: "\<not> (pat \<noteq> [] \<and> startsWith (c # s) pat)"
      using prefix_prefix[of pat "c # s" S] by (auto simp: startsWith_prefix)
    have "replaceAll pat rep (s @ S) = replaceAll pat rep s @ replaceAll pat rep S"
      using nsw by (intro 2(2) sub) (auto simp: suffix_ConsI)
    moreover have "replaceAll pat rep ((c # s) @ S) = c # replaceAll pat rep (s @ S)"
      using False by (cases "pat = []") (simp_all del: startsWith.simps)
    moreover have "replaceAll pat rep (c # s) = c # replaceAll pat rep s"
      using nsw by (cases "pat = []") (simp_all del: startsWith.simps)
    ultimately show ?thesis by simp
  qed
qed

lemma replaceAll_before_run:
  assumes "\<not> endsWith u ''.d.ts''"
  shows "replaceAll ''.d.ts.d.ts'' ''.d.ts'' (u @ ''.d.ts'' @ r)
    = replaceAll ''.d.ts.d.ts'' ''.d.ts'' u @ replaceAll ''.d.ts.d.ts'' ''.d.ts'' (''.d.ts'' @ r)"
proof (rule replaceAll_append, intro allI impI, elim conjE)
  fix v assume v: "suffix v u" "v \<noteq> []" "prefix ''.d.ts.d.ts'' (v @ ''.d.ts'' @ r)"
  from straddle[OF v(3,2)] v(1) assms show "prefix ''.d.ts.d.ts'' v"
    by (auto simp: endsWith_suffix)
qed

lemma replaceAll_run:
  "replaceAll ''.d.ts.d.ts'' ''.d.ts'' (concat (replicate m ''.d.ts''))
     = concat (replicate ((m + 1) div 2) ''.d.ts'')"
proof (induction m rule: less_induct)
  case (less m)
  show ?case
  proof (cases m)
    case 0
    then show ?thesis by simp
  next
    case (Suc m1)
    show ?thesis
    proof (cases m1)
      case 0
      with Suc show ?thesis by simp
    next
      case m1: (Suc m2)
      have "replaceAll ''.d.ts.d.ts'' ''.d.ts'' (concat (replicate m2 ''.d.ts''))
          = concat (replicate ((m2 + 1) div 2) ''.d.ts'')"
        using less[of m2] Suc m1 by simp
      then show ?thesis
        using Suc m1 by simp
    qed
  qed
qed

lemma concat_replicate_snoc: "concat (replicate j x) @ x = concat (replicate (Suc j) x)"
  by (induction j) auto

lemma run_decompose:
  "\<exists>u0 j. u = u0 @ concat (replicate j ''.d.ts'') \<and> \<not> endsWith u0 ''.d.ts''"
proof (induction "length u" arbitrary: u rule: less_induct)
  case less
  show ?case
  proof (cases "endsWith u ''.d.ts''")
    case False
    then have "u = u @ concat (replicate 0 ''.d.ts'') \<and> \<not> endsWith u ''.d.ts''" by simp
    then show ?thesis by blast
  next
    case True
    then obtain u1 where u: "u = u1 @ ''.d.ts''"
      by (auto simp: endsWith_suffix suffix_def)
    then have "length u1 < length u" by simp
    from less[OF this] obtain u0 j where "u1 = u0 @ concat (replicate j ''.d.ts'')"
      and n: "\<not> endsWith u0 ''.d.ts''" by blast
    then have "u = u0 @ concat (replicate (Suc j) ''.d.ts'')"
      using u by (simp add: concat_replicate_snoc del: replicate_Suc)
    with n show ?thesis by blast
  qed
qed

lemma concat_replicate_add:
  "concat (replicate (i + j) x) = concat (replicate i x) @ concat (replicate j x)"
  by (simp add: replicate_add)

lemma single_no_dup:
  assumes "\<not> str_includes u ''.d.ts.d.ts''" and "\<not> endsWith u ''.d.ts''"
  shows "\<not> str_includes (u @ ''.d.ts'') ''.d.ts.d.ts''"
proof -
  have "replaceAll ''.d.ts.d.ts'' ''.d.ts'' (u @ ''.d.ts'' @ [])
      = replaceAll ''.d.ts.d.ts'' ''.d.ts'' u @ replaceAll ''.d.ts.d.ts'' ''.d.ts'' (''.d.ts'' @ [])"
    by (rule replaceAll_before_run[OF assms(2)])
  then have "replaceAll ''.d.ts.d.ts'' ''.d.ts'' (u @ ''.d.ts'') = u @ ''.d.ts''"
    using assms(1) by (simp add: replaceAll_id)
  then have "\<not> length (replaceAll ''.d.ts.d.ts'' ''.d.ts'' (u @ ''.d.ts'')) < length (u @ ''.d.ts'')"
    by simp
  then show ?thesis
    using length_replaceAll_less[of "''.d.ts''" "''.d.ts.d.ts''" "u @ ''.d.ts''"] by auto
qed

lemma normalizeTypeUrl_single:
  assumes "\<not> str_includes u ''.d.ts.d.ts''" and "\<not> endsWith u ''.d.ts''"
  shows "normalizeTypeUrl (u @ ''.d.ts'') = u @ ''.d.ts''"
  using loop_id[OF single_no_dup[OF assms]] by (simp add: normalizeTypeUrl_def)

lemma replaceAll_single:
  "\<not> startsWith t ''.d.ts'' \<Longrightarrow>
   replaceAll ''.d.ts.d.ts'' ''.d.ts'' (''.d.ts'' @ t) = ''.d.ts'' @ replaceAll ''.d.ts.d.ts'' ''.d.ts'' t"
  by (cases t) auto

lemma replaceAll_run_tail:
  "\<not> startsWith t ''.d.ts'' \<Longrightarrow>
   replaceAll ''.d.ts.d.ts'' ''.d.ts'' (concat (replicate m ''.d.ts'') @ t)
     = concat (replicate ((m + 1) div 2) ''.d.ts'') @ replaceAll ''.d.ts.d.ts'' ''.d.ts'' t"
proof (induction m rule: less_induct)
  case (less m)
  show ?case
  proof (cases m)
    case 0
    then show ?thesis by simp
  next
    case (Suc m1)
    show ?thesis
    proof (cases m1)
      case 0
      with Suc replaceAll_single[OF less.prems] show ?thesis by simp
    next
      case m1: (Suc m2)
      have "replaceAll ''.d.ts.d.ts'' ''.d.ts'' (concat (replicate m2 ''.d.ts'') @ t)
          = concat (replicate ((m2 + 1) div 2) ''.d.ts'') @ replaceAll ''.d.ts.d.ts'' ''.d.ts'' t"
        using less.IH[of m2] less.prems Suc m1 by simp
      then show ?thesis
        using Suc m1 by simp
    qed
  qed
qed

lemma tail_decompose:
  "\<exists>i t0. t = concat (replicate i ''.d.ts'') @ t0 \<and> \<not> startsWith t0 ''.d.ts''"
proof (induction "length t" arbitrary: t rule: less_induct)
  case less
  show ?case
  proof (cases "startsWith t ''.d.ts''")
    case False
    then have "t = concat (replicate 0 ''.d.ts'') @ t \<and> \<not> startsWith t ''.d.ts''" by simp
    then show ?thesis by blast
  next
    case True
    then obtain t1 where t: "t = ''.d.ts'' @ t1"
      by (auto simp: startsWith_prefix prefix_def)
    then have "length t1 < length t" by simp
    from less[OF this] obtain i t0 where "t1 = concat (replicate i ''.d.ts'') @ t0"
      and n: "\<not> startsWith t0 ''.d.ts''" by blast
    then have "t = concat (replicate (Suc i) ''.d.ts'') @ t0"
      using t by simp
    with n show ?thesis by blast
  qed
qed

lemma loop_run_inside:
  "\<not> endsWith p ''.d.ts'' \<Longrightarrow> \<not> startsWith t ''.d.ts'' \<Longrightarrow>
   normalizeTypeUrl_loop (p @ concat (replicate (Suc m) ''.d.ts'') @ t)
     = normalizeTypeUrl_loop (p @ ''.d.ts'' @ t)"
proof (induction "length p + 5 * m + length t" arbitrary: p m t rule: less_induct)
  case less
  show ?case
  proof (cases m)
    case 0
    then show ?thesis by simp
  next
    case (Suc m0)
    define p1 where "p1 = replaceAll ''.d.ts.d.ts'' ''.d.ts'' p"
    define t1 where "t1 = replaceAll ''.d.ts.d.ts'' ''.d.ts'' t"
    from run_decompose[of p1] obtain p2 j
      where p1: "p1 = p2 @ concat (replicate j ''.d.ts'')" and n2: "\<not> endsWith p2 ''.d.ts''"
      by blast
    from tail_decompose[of t1] obtain i t2
      where t1: "t1 = concat (replicate i ''.d.ts'') @ t2" and s2: "\<not> startsWith t2 ''.d.ts''"
      by blast
    have "length p1 \<le> length p" "length t1 \<le> length t"
      unfolding p1_def t1_def by (rule length_replaceAll_le, simp)+
    then have len: "length p2 + 5 * j + (5 * i + length t2) \<le> length p + length t"
      by (simp add: p1 t1 length_concat sum_list_replicate)
    have run: "replaceAll ''.d.ts.d.ts'' ''.d.ts'' (p @ concat (replicate (Suc k) ''.d.ts'') @ t)
        = p2 @ concat (replicate (Suc (j + k div 2 + i)) ''.d.ts'') @ t2" for k
    proof -
      have "replaceAll ''.d.ts.d.ts'' ''.d.ts'' (p @ ''.d.ts'' @ concat (replicate k ''.d.ts'') @ t)
          = p1 @ replaceAll ''.d.ts.d.ts'' ''.d.ts'' (''.d.ts'' @ concat (replicate k ''.d.ts'') @ t)"
        unfolding p1_def by (rule replaceAll_before_run[OF less.prems(1)])
      also have "''.d.ts'' @ concat (replicate k ''.d.ts'') @ t = concat (replicate (Suc k) ''.d.ts'') @ t"
        by simp
      also have "replaceAll ''.d.ts.d.ts'' ''.d.ts'' (concat (replicate (Suc k) ''.d.ts'') @ t)
          = concat (replicate (Suc (k div 2)) ''.d.ts'') @ t1"
        unfolding t1_def by (simp only: replaceAll_run_tail[OF less.prems(2)]) simp
      also have "p1 @ concat (replicate (Suc (k div 2)) ''.d.ts'') @ t1
          = p2 @ concat (replicate (j + Suc (k div 2) + i) ''.d.ts'') @ t2"
        by (simp only: p1 t1 append_assoc concat_replicate_add)
      finally show ?thesis by simp
    qed
    have "normalizeTypeUrl_loop (p @ concat (replicate (Suc m) ''.d.ts'') @ t)
        = normalizeTypeUrl_loop (p2 @ concat (replicate (Suc (j + m div 2 + i)) ''.d.ts'') @ t2)"
      using loop_replaceAll[of "p @ concat (replicate (Suc m) ''.d.ts'') @ t"] by (simp only: run)
    also have "\<dots> = normalizeTypeUrl_loop (p2 @ ''.d.ts'' @ t2)"
      using len Suc by (intro less.hyps n2 s2) simp
    also have "\<dots> = normalizeTypeUrl_loop (p2 @ concat (replicate (Suc (j + 0 div 2 + i)) ''.d.ts'') @ t2)"
      using len Suc by (intro less.hyps[symmetric] n2 s2) simp
    also have "\<dots> = normalizeTypeUrl_loop (p @ concat (replicate (Suc 0) ''.d.ts'') @ t)"
      using loop_replaceAll[of "p @ concat (replicate (Suc 0) ''.d.ts'') @ t"] by (simp only: run)
    finally show ?thesis by simp
  qed
qed

lemma loop_runs_inside:
  "normalizeTypeUrl_loop (p @ concat (replicate (Suc m) ''.d.ts'') @ t)
     = normalizeTypeUrl_loop (p @ ''.d.ts'' @ t)"
proof -
  from run_decompose[of p] obtain p0 j
    where p: "p = p0 @ concat (replicate j ''.d.ts'')" and n: "\<not> endsWith p0 ''.d.ts''"
    by blast
  from tail_decompose[of t] obtain i t0
    where t: "t = concat (replicate i ''.d.ts'') @ t0" and s: "\<not> startsWith t0 ''.d.ts''"
    by blast
  have "p @ concat (replicate (Suc m) ''.d.ts'') @ t
      = p0 @ concat (replicate (j + Suc m + i) ''.d.ts'') @ t0"
    by (simp only: p t append_assoc concat_replicate_add)
  moreover have "p @ ''.d.ts'' @ t = p0 @ concat (replicate (j + Suc 0 + i) ''.d.ts'') @ t0"
    by (simp only: p t append_assoc concat_replicate_add) simp
  ultimately show ?thesis
    using loop_run_inside[OF n s, of "j + m + i"] loop_run_inside[OF n s, of "j + i"] by simp
qed

lemma normalizeTypeUrl_runs_inside:
  "normalizeTypeUrl (p @ concat (replicate (Suc m) ''.d.ts'') @ t) = normalizeTypeUrl (p @ ''.d.ts'' @ t)"
  unfolding normalizeTypeUrl_def by (simp only: loop_runs_inside)

lemma endsWith_includes: "endsWith s p \<Longrightarrow> str_includes s p"
  by (simp add: endsWith_suffix str_includes_sublist suffix_imp_sublist)

text \<open>
  Claim C7, as stated, promises that a URL with a query string is returned
  unmodified. The loop that collapses doubled extensions runs before the query test
  (lines 44-46 precede line 54), so a URL that has both a doubled extension and a
  query string is modified.
\<close>

theorem normalizeTypeUrl_query_counterexample:
  "str_includes ''https://esm.sh/pkg.d.ts.d.ts?v=1'' ''?''
   \<and> normalizeTypeUrl ''https://esm.sh/pkg.d.ts.d.ts?v=1'' \<noteq> ''https://esm.sh/pkg.d.ts.d.ts?v=1''"
  by code_simp

text \<open>
  Claim C7, amended. (1) Repeated declaration extensions collapse to a single one,
  wherever they stand: a URL with two or more extensions in a row is normalised like
  the URL with one extension in their place. At the end of a URL this leaves exactly
  one extension after the part before them, when that part has no doubled extension
  and does not itself end in the extension. Nowhere in a result is there a doubled
  extension, and a URL that ends in the extension still ends in it. (2) A URL without
  doubled extension is returned unmodified when it contains a query string, already
  ends in the extension, or ends in a slash, in \<^verbatim>\<open>.ts\<close> or in \<^verbatim>\<open>.js\<close>. (3) A URL
  with no query string, not ending in a slash and containing neither \<^verbatim>\<open>.ts\<close> nor
  \<^verbatim>\<open>.js\<close> anywhere (the code's test for "has no extension") gains exactly one
  extension.
\<close>

theorem normalizeTypeUrl_contract:
  "normalizeTypeUrl (p @ concat (replicate (Suc (Suc n0)) ''.d.ts'') @ t)
     = normalizeTypeUrl (p @ ''.d.ts'' @ t)
   \<and> (\<not> str_includes u5 ''.d.ts.d.ts'' \<and> \<not> endsWith u5 ''.d.ts''
        \<longrightarrow> normalizeTypeUrl (u5 @ concat (replicate (Suc n5) ''.d.ts'')) = u5 @ ''.d.ts'')
   \<and> \<not> str_includes (normalizeTypeUrl u1) ''.d.ts.d.ts''
   \<and> (endsWith u2 ''.d.ts'' \<longrightarrow> endsWith (normalizeTypeUrl u2) ''.d.ts'')
   \<and> (\<not> str_includes u3 ''.d.ts.d.ts''
        \<and> (str_includes u3 ''?'' \<or> endsWith u3 ''.d.ts'' \<or> endsWith u3 ''/''
             \<or> endsWith u3 ''.ts'' \<or> endsWith u3 ''.js'')
        \<longrightarrow> normalizeTypeUrl u3 = u3)
   \<and> (\<not> str_includes u4 ''?'' \<and> \<not> endsWith u4 ''/'' \<and> \<not> str_includes u4 ''.ts''
        \<and> \<not> str_includes u4 ''.js'' \<longrightarrow> normalizeTypeUrl u4 = u4 @ ''.d.ts'')"
proof (intro conjI)
  show "normalizeTypeUrl (p @ concat (replicate (Suc (Suc n0)) ''.d.ts'') @ t)
      = normalizeTypeUrl (p @ ''.d.ts'' @ t)"
    by (rule normalizeTypeUrl_runs_inside)
  show "\<not> str_includes u5 ''.d.ts.d.ts'' \<and> \<not> endsWith u5 ''.d.ts''
      \<longrightarrow> normalizeTypeUrl (u5 @ concat (replicate (Suc n5) ''.d.ts'')) = u5 @ ''.d.ts''"
    using normalizeTypeUrl_single[of u5] normalizeTypeUrl_runs_inside[of u5 n5 "[]"] by simp
  show "\<not> str_includes (normalizeTypeUrl u1) ''.d.ts.d.ts''"
    by (rule normalizeTypeUrl_no_dup)
  show "endsWith u2 ''.d.ts'' \<longrightarrow> endsWith (normalizeTypeUrl u2) ''.d.ts''"
    using loop_keeps_dts[of u2] by (simp add: normalizeTypeUrl_def)
  show "\<not> str_includes u3 ''.d.ts.d.ts''
     \<and> (str_includes u3 ''?'' \<or> endsWith u3 ''.d.ts'' \<or> endsWith u3 ''/''
          \<or> endsWith u3 ''.ts'' \<or> endsWith u3 ''.js'')
     \<longrightarrow> normalizeTypeUrl u3 = u3"
    using loop_id[of u3] endsWith_includes[of u3 "''.ts''"] endsWith_includes[of u3 "''.js''"]
    by (auto simp: normalizeTypeUrl_def)
  show "\<not> str_includes u4 ''?'' \<and> \<not> endsWith u4 ''/'' \<and> \<not> str_includes u4 ''.ts''
     \<and> \<not> str_includes u4 ''.js'' \<longrightarrow> normalizeTypeUrl u4 = u4 @ ''.d.ts''"
    using loop_id[of u4] no_ts_no_dup[of u4] by (simp add: normalizeTypeUrl_def)
qed

theorem normalizeTypeUrl_contract_witness:
  "\<not> str_includes ''https://esm.sh/v135/index'' ''.d.ts.d.ts''
   \<and> \<not> endsWith ''https://esm.sh/v135/index'' ''.d.ts''
   \<and> normalizeTypeUrl ''https://esm.sh/v135/index.d.ts.d.ts.d.ts'' = ''https://esm.sh/v135/index.d.ts''
   \<and> endsWith ''https://esm.sh/a.d.ts.d.ts.d.ts'' ''.d.ts''
   \<and> endsWith (normalizeTypeUrl ''https://esm.sh/a.d.ts.d.ts.d.ts'') ''.d.ts''
   \<and> \<not> str_includes (normalizeTypeUrl ''https://esm.sh/a.d.ts.d.ts.d.ts'') ''.d.ts.d.ts''
   \<and> str_includes ''https://esm.sh/react?dts'' ''?''
   \<and> \<not> str_includes ''https://esm.sh/react?dts'' ''.d.ts.d.ts''
   \<and> normalizeTypeUrl ''https://esm.sh/react?dts'' = ''https://esm.sh/react?dts''
   \<and> \<not> str_includes ''https://esm.sh/v135/react/index'' ''?''
   \<and> \<not> endsWith ''https://esm.sh/v135/react/index'' ''/''
   \<and> \<not> str_includes ''https://esm.sh/v135/react/index'' ''.ts''
   \<and> \<not> str_includes ''https://esm.sh/v135/react/index'' ''.js''
   \<and> normalizeTypeUrl ''https://esm.sh/v135/react/index'' = ''https://esm.sh/v135/react/index.d.ts''"
  using normalizeTypeUrl_contract[of "''https://esm.sh/b''" 0 "''/c''" "''https://esm.sh/v135/index''"
      "Suc (Suc 0)" "''https://esm.sh/a.d.ts.d.ts.d.ts''"
      "''https://esm.sh/a.d.ts.d.ts.d.ts''" "''https://esm.sh/react?dts''"
      "''https://esm.sh/v135/react/index''"]
  by (simp add: endsWith_def)

text \<open>
  What the three parts leave open are the URLs that contain \<^verbatim>\<open>.ts\<close> or \<^verbatim>\<open>.js\<close>
  somewhere before their end; the code returns these unmodified as well (line 59).
  With that there is no freedom left: a function that collapses runs of the
  extension wherever they stand, returns unmodified what the code's tests let pass
  and appends the extension to the URLs of part (3) is \<^const>\<open>normalizeTypeUrl\<close>.
\<close>

lemma contract_determines:
  assumes runs: "\<And>p n t. f (p @ concat (replicate (Suc (Suc n)) ''.d.ts'') @ t) = f (p @ ''.d.ts'' @ t)"
    and keep: "\<And>u. \<not> str_includes u ''.d.ts.d.ts'' \<Longrightarrow>
        str_includes u ''?'' \<or> endsWith u ''.d.ts'' \<or> endsWith u ''/''
          \<or> str_includes u ''.ts'' \<or> str_includes u ''.js'' \<Longrightarrow> f u = u"
    and bare: "\<And>u. \<not> str_includes u ''?'' \<Longrightarrow> \<not> endsWith u ''/'' \<Longrightarrow>
        \<not> str_includes u ''.ts'' \<Longrightarrow> \<not> str_includes u ''.js'' \<Longrightarrow> f u = u @ ''.d.ts''"
  shows "f u = normalizeTypeUrl u"
proof (induction "length u" arbitrary: u rule: less_induct)
  case less
  show ?case
  proof (cases "str_includes u ''.d.ts.d.ts''")
    case True
    then obtain p t where u: "u = p @ ''.d.ts.d.ts'' @ t"
      by (auto simp: str_includes_sublist sublist_def)
    then have u': "u = p @ concat (replicate (Suc (Suc 0)) ''.d.ts'') @ t" by simp
    have "f u = f (p @ ''.d.ts'' @ t)"
      unfolding u' by (rule runs)
    also have "\<dots> = normalizeTypeUrl (p @ ''.d.ts'' @ t)"
      by (rule less) (simp add: u)
    also have "\<dots> = normalizeTypeUrl u"
      unfolding u' by (rule normalizeTypeUrl_runs_inside[symmetric])
    finally show ?thesis .
  next
    case False
    show ?thesis
    proof (cases "str_includes u ''?'' \<or> endsWith u ''.d.ts'' \<or> endsWith u ''/''
          \<or> str_includes u ''.ts'' \<or> str_includes u ''.js''")
      case True
      from keep[OF False True] loop_id[OF False] True show ?thesis
        by (auto simp: normalizeTypeUrl_def)
    next
      case nb: False
      then have "f u = u @ ''.d.ts''" by (intro bare) simp_all
      with nb loop_id[OF False] show ?thesis
        by (simp add: normalizeTypeUrl_def)
    qed
  qed
qed

section \<open>Import extraction\<close>

lemma first_some_SomeD: "first_some f xs = Some y \<Longrightarrow> \<exists>x\<in>set xs. f x = Some y"
  by (induction xs) (auto split: option.splits)

lemma match_items_length:
  "match_items re s cap = Some (c, r) \<Longrightarrow> length r \<le> length s"
proof (induction re arbitrary: s cap)
  case Nil
  then show ?case by simp
next
  case (Cons it its)
  show ?case
  proof (cases it)
    case (Lit l)
    with Cons.prems have "match_items its (drop (length l) s) cap = Some (c, r)"
      by (simp split: if_splits)
    from Cons.IH[OF this] show ?thesis by simp
  next
    case (One cls)
    with Cons.prems obtain d s' where "s = d # s'" "match_items its s' cap = Some (c, r)"
      by (auto split: list.splits if_splits)
    with Cons.IH[of s' cap] show ?thesis by simp
  next
    case (Star cls)
    with Cons.prems obtain n where "match_items its (drop n s) cap = Some (c, r)"
      by (auto dest: first_some_SomeD)
    from Cons.IH[OF this] show ?thesis by simp
  next
    case (Plus cls)
    with Cons.prems obtain n where "match_items its (drop n s) cap = Some (c, r)"
      by (auto dest: first_some_SomeD)
    from Cons.IH[OF this] show ?thesis by simp
  next
    case (CapPlus cls)
    with Cons.prems obtain n where "match_items its (drop n s) (Some (take n s)) = Some (c, r)"
      by (auto dest: first_some_SomeD)
    from Cons.IH[OF this] show ?thesis by simp
  qed
qed

lemma match_items_Lit_shorter:
  assumes "match_items (Lit l # its) s cap = Some (c, r)" and "l \<noteq> []"
  shows "length r < length s"
proof -
  from assms(1) have p: "startsWith s l" and m: "match_items its (drop (length l) s) cap = Some (c, r)"
    by (simp_all split: if_splits)
  from p have "length l \<le> length s"
    by (auto simp: startsWith_prefix dest: prefix_length_le)
  with match_items_length[OF m] assms(2) show ?thesis
    by (cases l) auto
qed

lemma search_Lit_shorter:
  "search (Lit l # its) s = Some (c, r) \<Longrightarrow> l \<noteq> [] \<Longrightarrow> length r < length s"
proof (induction s)
  case Nil
  then show ?case by (cases l) (simp_all)
next
  case (Cons a s)
  show ?case
  proof (cases "match_items (Lit l # its) (a # s) None")
    case None
    with Cons show ?thesis by (simp del: match_items.simps) 
  next
    case (Some m)
    with Cons.prems have "match_items (Lit l # its) (a # s) None = Some (c, r)"
      by (simp del: match_items.simps)
    from match_items_Lit_shorter[OF this Cons.prems(2)] show ?thesis .
  qed
qed

lemma exec_all_progress:
  "re \<in> set import_patterns \<Longrightarrow> search re s = Some (cap, rest) \<Longrightarrow> length rest < length s"
  by (auto simp: import_patterns_def dest: search_Lit_shorter)

lemma set_add_distinct: "distinct xs \<Longrightarrow> distinct (set_add x xs)"
  by (simp add: set_add_def)

lemma add_import_distinct: "distinct xs \<Longrightarrow> distinct (add_import xs m)"
  by (simp add: add_import_def set_add_distinct split: option.splits)

lemma foldl_add_import_distinct: "distinct xs \<Longrightarrow> distinct (foldl add_import xs ms)"
  by (induction ms arbitrary: xs) (simp_all add: add_import_distinct)

lemma extractImports_distinct: "distinct (extractImports code)"
proof -
  have "distinct (foldl (\<lambda>imports pattern. foldl add_import imports (exec_all pattern code)) xs ps)"
    if "distinct xs" for xs ps
    using that by (induction ps arbitrary: xs) (simp_all add: foldl_add_import_distinct)
  then show ?thesis by (simp add: extractImports_def)
qed

text \<open>
  Claim C8. On the example source the extraction yields exactly the two specifiers
  \<^verbatim>\<open>@vapor-ui/core\<close> and \<^verbatim>\<open>lodash\<close>: the relative specifier is dropped and the subpath
  \<^verbatim>\<open>lodash/fp\<close> collapses to its first segment. A scoped subpath collapses to scope
  and name, and the result of every extraction is free of duplicates.
\<close>

theorem extractImports_sample:
  "extractImports sample_source = [''@vapor-ui/core'', ''lodash'']
   \<and> set (extractImports sample_source) = {''@vapor-ui/core'', ''lodash''}
   \<and> cleanModuleName ''@vapor-ui/core/Button'' = ''@vapor-ui/core''
   \<and> cleanModuleName ''lodash/fp'' = ''lodash''
   \<and> distinct (extractImports code)"
proof -
  have "extractImports sample_source = [''@vapor-ui/core'', ''lodash'']"
    by code_simp
  moreover have "cleanModuleName ''@vapor-ui/core/Button'' = ''@vapor-ui/core''"
    by code_simp
  moreover have "cleanModuleName ''lodash/fp'' = ''lodash''"
    by code_simp
  ultimately show ?thesis
    by (simp add: extractImports_distinct)
qed

section \<open>The persistent cache\<close>

lemma cleanup_scan_decodable:
  assumes "all_decodable e ls"
  shows "cleanup_scan e i ls acc = (ls, acc @ cache_entries e (drop i ls))"
  using assms
proof (induction e i ls acc rule: cleanup_scan.induct)
  case (1 e i ls entries)
  show ?case
  proof (cases "i < length ls")
    case False
    then show ?thesis
      by (subst cleanup_scan.simps) (simp add: cache_entries_def)
  next
    case True
    then have d: "drop i ls = ls ! i # drop (Suc i) ls"
      by (simp add: Cons_nth_drop_Suc)
    obtain key val where kv: "ls ! i = (key, val)" by (cases "ls ! i")
    from True have mem: "(key, val) \<in> set ls"
      using kv nth_mem by fastforce
    show ?thesis
    proof (cases "isCacheKey key")
      case False
      with 1 True kv d show ?thesis
        by (subst cleanup_scan.simps) (simp add: cache_entries_def)
    next
      case ck: True
      with mem 1(5) obtain parsed where p: "val \<noteq> []" "JSON_parse e val = Some parsed"
        by (auto simp: all_decodable_def list_all_iff)
      have "cleanup_scan e (Suc i) ls (entries @ [(key, timestamp parsed)])
          = (ls, (entries @ [(key, timestamp parsed)]) @ cache_entries e (drop (Suc i) ls))"
        using 1(2)[OF True kv[symmetric] ck p(1) p(2)] 1(5) by simp
      with True kv ck p d show ?thesis
        by (subst cleanup_scan.simps) (simp add: cache_entries_def)
    qed
  qed
qed

lemma foldl_removeItem:
  "foldl (\<lambda>st ent. removeItem (fst ent) st) ls xs = filter (\<lambda>kv. fst kv \<notin> fst ` set xs) ls"
proof (induction xs arbitrary: ls)
  case Nil
  then show ?case by simp
next
  case (Cons x xs)
  have "filter (\<lambda>kv. fst kv \<notin> fst ` set xs) (removeItem (fst x) ls)
      = filter (\<lambda>kv. fst kv \<notin> fst ` set (x # xs)) ls"
    by (induction ls) (auto simp: removeItem_def)
  then show ?case
    by (simp add: Cons.IH)
qed

lemma cleanupOldEntries_decodable:
  assumes "all_decodable e ls"
  shows "cleanupOldEntries e ls = filter (\<lambda>kv. fst kv \<notin> fst ` set (oldest_entries e ls)) ls"
  by (simp add: cleanupOldEntries_def cleanup_scan_decodable[OF assms] foldl_removeItem
      oldest_entries_def Let_def)

lemma ceil30_le: "ceil30 n \<le> n"
  by (simp add: ceil30_def)

lemma length_oldest_entries:
  "length (oldest_entries e ls) = ceil30 (length (cache_entries e ls))"
  by (simp add: oldest_entries_def ceil30_le)

lemma sorted_take_le_drop:
  assumes "sorted (map f xs)" "x \<in> set (take k xs)" "y \<in> set (drop k xs)"
  shows "f x \<le> f y"
proof -
  have "xs = take k xs @ drop k xs" by simp
  then have "sorted (map f (take k xs) @ map f (drop k xs))"
    using assms(1) by (metis map_append)
  with assms(2,3) show ?thesis
    by (auto simp: sorted_append)
qed

lemma oldest_entries_oldest:
  assumes "x \<in> set (oldest_entries e ls)"
    and "y \<in> set (cache_entries e ls)" and "y \<notin> set (oldest_entries e ls)"
  shows "snd x \<le> snd y"
proof -
  let ?s = "sort_key snd (cache_entries e ls)"
  let ?k = "ceil30 (length (cache_entries e ls))"
  have "set ?s = set (take ?k ?s) \<union> set (drop ?k ?s)"
    by (metis append_take_drop_id set_append)
  with assms(2,3) have "y \<in> set (drop ?k ?s)"
    by (auto simp: oldest_entries_def)
  moreover have "sorted (map snd ?s)" by simp
  ultimately show ?thesis
    using assms(1) sorted_take_le_drop[of snd ?s x ?k y] by (simp add: oldest_entries_def)
qed

lemma ensureCacheSpace_over:
  "MAX_CACHE_SIZE < getCurrentCacheSize ls \<Longrightarrow> all_decodable e ls \<Longrightarrow>
   ensureCacheSpace e ls = filter (\<lambda>kv. fst kv \<notin> fst ` set (oldest_entries e ls)) ls"
  by (simp add: ensureCacheSpace_def cleanupOldEntries_decodable)

lemma ensureCacheSpace_within:
  "getCurrentCacheSize ls \<le> MAX_CACHE_SIZE \<Longrightarrow> ensureCacheSpace e ls = ls"
  by (simp add: ensureCacheSpace_def)

lemma TypeCache_set_storage:
  "localStorage (TypeCache_set e url text tag ver w) =
     (let remaining = ensureCacheSpace e (localStorage w);
          stored = setItem (getCacheKey url)
            (JSON_stringify e \<lparr>content = text, timestamp = clock e (ticks w), version = ver, etag = tag\<rparr>)
            remaining
      in if quota_ok e stored then stored else remaining)"
  by (simp add: TypeCache_set_def Date_now_def Let_def)

text \<open>
  Claim C4, amended. \<^verbatim>\<open>set\<close> evicts when the records of the cache already exceed the
  budget before the write, not when the write would carry them over it. In that case,
  and when every record of the cache can be parsed, it removes exactly the
  \<open>ceil30 n\<close> oldest of the \<open>n\<close> records: none of them is newer than a record that
  stays; everything else stays, and then the new record is written (unless the
  storage refuses it). When the budget is not exceeded, nothing is removed.
\<close>

theorem TypeCache_set_evicts_oldest:
  "(MAX_CACHE_SIZE < getCurrentCacheSize (localStorage w) \<and> all_decodable e (localStorage w) \<longrightarrow>
      length (oldest_entries e (localStorage w)) = ceil30 (length (cache_entries e (localStorage w)))
      \<and> (\<forall>x\<in>set (oldest_entries e (localStorage w)).
           \<forall>y\<in>set (cache_entries e (localStorage w)) - set (oldest_entries e (localStorage w)).
             snd x \<le> snd y)
      \<and> localStorage (TypeCache_set e url text tag ver w) =
          (let remaining = filter (\<lambda>kv. fst kv \<notin> fst ` set (oldest_entries e (localStorage w)))
                 (localStorage w);
               stored = setItem (getCacheKey url)
                 (JSON_stringify e \<lparr>content = text, timestamp = clock e (ticks w),
                    version = ver, etag = tag\<rparr>) remaining
           in if quota_ok e stored then stored else remaining))
   \<and> (getCurrentCacheSize (localStorage w) \<le> MAX_CACHE_SIZE \<longrightarrow>
      localStorage (TypeCache_set e url text tag ver w) =
          (let stored = setItem (getCacheKey url)
                 (JSON_stringify e \<lparr>content = text, timestamp = clock e (ticks w),
                    version = ver, etag = tag\<rparr>) (localStorage w)
           in if quota_ok e stored then stored else localStorage w))"
proof (intro conjI impI ballI)
  assume h: "MAX_CACHE_SIZE < getCurrentCacheSize (localStorage w) \<and> all_decodable e (localStorage w)"
  show "length (oldest_entries e (localStorage w)) = ceil30 (length (cache_entries e (localStorage w)))"
    by (rule length_oldest_entries)
  show "localStorage (TypeCache_set e url text tag ver w) =
          (let remaining = filter (\<lambda>kv. fst kv \<notin> fst ` set (oldest_entries e (localStorage w)))
                 (localStorage w);
               stored = setItem (getCacheKey url)
                 (JSON_stringify e \<lparr>content = text, timestamp = clock e (ticks w),
                    version = ver, etag = tag\<rparr>) remaining
           in if quota_ok e stored then stored else remaining)"
    using h by (simp add: TypeCache_set_storage ensureCacheSpace_over Let_def)
next
  fix x y
  assume "x \<in> set (oldest_entries e (localStorage w))"
    and "y \<in> set (cache_entries e (localStorage w)) - set (oldest_entries e (localStorage w))"
  then show "snd x \<le> snd y"
    by (auto intro: oldest_entries_oldest)
next
  assume "getCurrentCacheSize (localStorage w) \<le> MAX_CACHE_SIZE"
  then show "localStorage (TypeCache_set e url text tag ver w) =
          (let stored = setItem (getCacheKey url)
                 (JSON_stringify e \<lparr>content = text, timestamp = clock e (ticks w),
                    version = ver, etag = tag\<rparr>) (localStorage w)
           in if quota_ok e stored then stored else localStorage w)"
    by (simp add: TypeCache_set_storage ensureCacheSpace_within Let_def)
qed

lemma length_big_record: "length big_record = MAX_CACHE_SIZE + 1"
  by (simp add: big_record_def MAX_CACHE_SIZE_def)

lemma length_full_record: "length full_record = MAX_CACHE_SIZE"
  by (simp add: full_record_def MAX_CACHE_SIZE_def)

lemma not_big_record: "length s < 100 \<Longrightarrow> s \<noteq> big_record"
  using length_big_record by (auto simp: MAX_CACHE_SIZE_def)

lemma demo_keys:
  "getCacheKey ''a'' = ''ts-types-cache:a''" "getCacheKey ''b'' = ''ts-types-cache:b''"
  "getCacheKey ''c'' = ''ts-types-cache:c''" "getCacheKey ''d'' = ''ts-types-cache:d''"
  by (simp_all add: getCacheKey_def CACHE_PREFIX_def isAlnum_def)

lemma demo_cache_entries:
  "cache_entries eviction_env demo_storage =
     [(''ts-types-cache:a'', 30), (''ts-types-cache:b'', 10), (''ts-types-cache:c'', 20)]"
  by (simp add: cache_entries_def demo_storage_def demo_keys isCacheKey_def CACHE_PREFIX_def
      eviction_env_def demo_env_def demo_parse_def not_big_record)

lemma demo_oldest: "oldest_entries eviction_env demo_storage = [(''ts-types-cache:b'', 10)]"
  by (simp add: oldest_entries_def demo_cache_entries ceil30_def)

theorem TypeCache_set_evicts_oldest_witness:
  \<open>MAX_CACHE_SIZE < getCurrentCacheSize demo_storage
   \<and> all_decodable eviction_env demo_storage
   \<and> oldest_entries eviction_env demo_storage = [(''ts-types-cache:b'', 10)]
   \<and> localStorage (TypeCache_set eviction_env ''d'' ''x'' None None
        (empty_world\<lparr>localStorage := demo_storage\<rparr>)) =
      [(''ts-types-cache:a'', ''{"content":"a","timestamp":30}''),
       (''theme'', ''dark''),
       (''ts-types-cache:c'', big_record),
       (''ts-types-cache:d'', ''{"content":"x","timestamp":40}'')]
   \<and> getCurrentCacheSize [(''ts-types-cache:a'', ''{"content":"a","timestamp":30}'')] \<le> MAX_CACHE_SIZE
   \<and> localStorage (TypeCache_set eviction_env ''d'' ''x'' None None
        (empty_world\<lparr>localStorage := [(''ts-types-cache:a'', ''{"content":"a","timestamp":30}'')]\<rparr>)) =
      [(''ts-types-cache:a'', ''{"content":"a","timestamp":30}''),
       (''ts-types-cache:d'', ''{"content":"x","timestamp":40}'')]\<close>
proof -
  have over: "MAX_CACHE_SIZE < getCurrentCacheSize demo_storage"
    by (simp add: getCurrentCacheSize_def demo_storage_def demo_keys isCacheKey_def
        CACHE_PREFIX_def length_big_record)
  have dec: "all_decodable eviction_env demo_storage"
    by (simp add: all_decodable_def demo_storage_def demo_keys isCacheKey_def CACHE_PREFIX_def
        eviction_env_def demo_env_def demo_parse_def not_big_record)
      (simp add: big_record_def)
  have within: \<open>getCurrentCacheSize [(''ts-types-cache:a'', ''{"content":"a","timestamp":30}'')]
      \<le> MAX_CACHE_SIZE\<close>
    by (simp add: getCurrentCacheSize_def MAX_CACHE_SIZE_def)
  show ?thesis
    using TypeCache_set_evicts_oldest[of "empty_world\<lparr>localStorage := demo_storage\<rparr>" eviction_env
        "''d''" "''x''" None None]
      TypeCache_set_evicts_oldest[of
        \<open>empty_world\<lparr>localStorage := [(''ts-types-cache:a'', ''{"content":"a","timestamp":30}'')]\<rparr>\<close>
        eviction_env "''d''" "''x''" None None]
      over dec within
    by (simp add: demo_oldest demo_keys Let_def)
      (simp add: demo_storage_def demo_keys setItem_def eviction_env_def demo_env_def)
qed

text \<open>
  Claim C4, as stated, ties the eviction to a write that would push the total over
  the budget. With one record of exactly 50MB in the storage, the next write carries
  the total over the budget, and the old record, the oldest 30% of one entry, is still
  there afterwards.
\<close>

theorem TypeCache_set_no_eviction_counterexample:
  \<open>MAX_CACHE_SIZE <
      getCurrentCacheSize [(getCacheKey ''a'', full_record)]
      + length (JSON_stringify demo_env
          \<lparr>content = ''x'', timestamp = 40, version = None, etag = None\<rparr>)
   \<and> localStorage (TypeCache_set demo_env ''b'' ''x'' None None
        (empty_world\<lparr>localStorage := [(getCacheKey ''a'', full_record)]\<rparr>)) =
      [(''ts-types-cache:a'', full_record),
       (''ts-types-cache:b'', ''{"content":"x","timestamp":40}'')]\<close>
  by (simp add: TypeCache_set_storage ensureCacheSpace_def getCurrentCacheSize_def demo_keys
      isCacheKey_def CACHE_PREFIX_def length_full_record demo_env_def setItem_def Let_def)

lemma getItem_removeItem [simp]: "getItem (removeItem k ls) k = None"
  by (auto simp: getItem_def removeItem_def map_of_eq_None_iff)

text \<open>
  Claim C5 says that \<^verbatim>\<open>get\<close> deletes a record that cannot be decoded. The code
  returns a miss and counts it, and surfaces no error, but leaves the record where
  it is: the \<^verbatim>\<open>catch\<close> of \<^verbatim>\<open>get\<close> has no \<^verbatim>\<open>removeItem\<close>, unlike its two other
  invalidation paths and unlike \<^verbatim>\<open>cleanupOldEntries\<close>.
\<close>

theorem TypeCache_get_keeps_malformed:
  "getItem (localStorage w) (getCacheKey url) = Some cached \<and> cached \<noteq> []
     \<and> JSON_parse e cached = None \<longrightarrow>
   TypeCache_get e url w = (None, w\<lparr>missCount := Suc (missCount w)\<rparr>)
   \<and> getItem (localStorage (snd (TypeCache_get e url w))) (getCacheKey url) = Some cached"
  by (simp add: TypeCache_get_def miss_def)

theorem TypeCache_get_keeps_malformed_witness:
  \<open>getItem malformed_storage (getCacheKey ''m'') = Some ''{oops''
   \<and> JSON_parse demo_env ''{oops'' = None
   \<and> fst (TypeCache_get demo_env ''m'' (empty_world\<lparr>localStorage := malformed_storage\<rparr>)) = None
   \<and> localStorage (snd (TypeCache_get demo_env ''m'' (empty_world\<lparr>localStorage := malformed_storage\<rparr>)))
       = [(''ts-types-cache:m'', ''{oops'')]\<close>
proof -
  have a: \<open>getItem malformed_storage (getCacheKey ''m'') = Some ''{oops''\<close>
    by (simp add: malformed_storage_def getItem_def)
  have b: \<open>JSON_parse demo_env ''{oops'' = None\<close>
    by (simp add: demo_env_def demo_parse_def)
  have c: "getCacheKey ''m'' = ''ts-types-cache:m''"
    by (simp add: getCacheKey_def CACHE_PREFIX_def isAlnum_def)
  show ?thesis
    using TypeCache_get_keeps_malformed[of "empty_world\<lparr>localStorage := malformed_storage\<rparr>"
        "''m''" \<open>''{oops''\<close> demo_env] a b
    by simp (simp add: malformed_storage_def c)
qed

text \<open>
  Claim C6, as stated, lets only a probe that reports a different tag invalidate the
  entry. \<^verbatim>\<open>validateETag\<close> compares the \<^verbatim>\<open>etag\<close> header of whatever response it gets
  with the stored tag and never looks at the status (line 351). A response that
  reports no tag at all, be it a 200 without the header or a 503, therefore
  invalidates the entry too: \<^verbatim>\<open>get\<close> returns a miss and the record is gone.
\<close>

theorem TypeCache_get_tagless_probe_counterexample:
  \<open>getItem etag_storage (getCacheKey ''t'') = Some ''{"content":"t","timestamp":5,"etag":"v1"}''
   \<and> JSON_parse tagless_env ''{"content":"t","timestamp":5,"etag":"v1"}''
       = Some \<lparr>content = ''t'', timestamp = 5, version = None, etag = Some ''v1''\<rparr>
   \<and> respond tagless_env (Suc 0) HEAD ''t''
       = Some \<lparr>ok = True, statusText = ''OK'', header = Map.empty, body = None\<rparr>
   \<and> fst (TypeCache_get tagless_env ''t'' (empty_world\<lparr>localStorage := etag_storage\<rparr>)) = None
   \<and> localStorage (snd (TypeCache_get tagless_env ''t'' (empty_world\<lparr>localStorage := etag_storage\<rparr>)))
       = []
   \<and> respond unavailable_env (Suc 0) HEAD ''t''
       = Some \<lparr>ok = False, statusText = ''Service Unavailable'', header = Map.empty, body = None\<rparr>
   \<and> fst (TypeCache_get unavailable_env ''t'' (empty_world\<lparr>localStorage := etag_storage\<rparr>)) = None
   \<and> localStorage (snd (TypeCache_get unavailable_env ''t'' (empty_world\<lparr>localStorage := etag_storage\<rparr>)))
       = []\<close>
  by (simp add: TypeCache_get_def Date_now_def validateETag_def fetch_def hit_def miss_def
      tagless_env_def unavailable_env_def demo_env_def demo_parse_def etag_storage_def
      empty_world_def getItem_def removeItem_def CACHE_EXPIRY_def)

text \<open>
  Claim C6, amended. For a stored record that parses, has not expired and carries a
  non-empty tag: when the probe rejects, \<^verbatim>\<open>get\<close> returns the cached content and
  leaves the storage as it is; when the probe completes, whatever its status, the
  entry is returned if the \<^verbatim>\<open>etag\<close> header of the response is the stored tag and is
  removed otherwise, also when the response has no such header.
\<close>

theorem TypeCache_get_fail_open:
  "getItem (localStorage w) (getCacheKey url) = Some cached \<and> cached \<noteq> []
     \<and> JSON_parse e cached = Some r \<and> clock e (ticks w) - timestamp r \<le> CACHE_EXPIRY
     \<and> etag r = Some tag \<and> tag \<noteq> [] \<longrightarrow>
   (respond e (Suc (ticks w)) HEAD url = None \<longrightarrow>
      fst (TypeCache_get e url w) = Some (content r)
      \<and> localStorage (snd (TypeCache_get e url w)) = localStorage w)
   \<and> (\<forall>response. respond e (Suc (ticks w)) HEAD url = Some response \<longrightarrow>
        (if header response ''etag'' = Some tag
         then fst (TypeCache_get e url w) = Some (content r)
              \<and> localStorage (snd (TypeCache_get e url w)) = localStorage w
         else fst (TypeCache_get e url w) = None
              \<and> getItem (localStorage (snd (TypeCache_get e url w))) (getCacheKey url) = None))"
  by (simp add: TypeCache_get_def Date_now_def validateETag_def fetch_def hit_def miss_def)

theorem TypeCache_get_fail_open_witness:
  \<open>getItem etag_storage (getCacheKey ''t'') = Some ''{"content":"t","timestamp":5,"etag":"v1"}''
   \<and> JSON_parse demo_env ''{"content":"t","timestamp":5,"etag":"v1"}''
       = Some \<lparr>content = ''t'', timestamp = 5, version = None, etag = Some ''v1''\<rparr>
   \<and> clock demo_env 0 - 5 \<le> CACHE_EXPIRY
   \<and> respond demo_env (Suc 0) HEAD ''t'' = None
   \<and> fst (TypeCache_get demo_env ''t'' (empty_world\<lparr>localStorage := etag_storage\<rparr>)) = Some ''t''
   \<and> localStorage (snd (TypeCache_get demo_env ''t'' (empty_world\<lparr>localStorage := etag_storage\<rparr>)))
       = etag_storage
   \<and> (\<exists>response. respond changed_tag_env (Suc 0) HEAD ''t'' = Some response
         \<and> header response ''etag'' = Some ''v2'')
   \<and> fst (TypeCache_get changed_tag_env ''t'' (empty_world\<lparr>localStorage := etag_storage\<rparr>)) = None
   \<and> getItem (localStorage (snd (TypeCache_get changed_tag_env ''t''
        (empty_world\<lparr>localStorage := etag_storage\<rparr>)))) (getCacheKey ''t'') = None\<close>
proof -
  have a: \<open>getItem etag_storage (getCacheKey ''t'') = Some ''{"content":"t","timestamp":5,"etag":"v1"}''\<close>
    by (simp add: etag_storage_def getItem_def)
  have b: \<open>JSON_parse demo_env ''{"content":"t","timestamp":5,"etag":"v1"}''
       = Some \<lparr>content = ''t'', timestamp = 5, version = None, etag = Some ''v1''\<rparr>\<close>
    \<open>JSON_parse changed_tag_env ''{"content":"t","timestamp":5,"etag":"v1"}''
       = Some \<lparr>content = ''t'', timestamp = 5, version = None, etag = Some ''v1''\<rparr>\<close>
    by (simp_all add: changed_tag_env_def demo_env_def demo_parse_def)
  have c: "clock demo_env 0 - 5 \<le> CACHE_EXPIRY" "clock changed_tag_env 0 - 5 \<le> CACHE_EXPIRY"
    by (simp_all add: changed_tag_env_def demo_env_def CACHE_EXPIRY_def)
  have d: "respond demo_env (Suc 0) HEAD ''t'' = None"
    "respond changed_tag_env (Suc 0) HEAD ''t''
       = Some \<lparr>ok = True, statusText = ''OK'', header = [''etag'' \<mapsto> ''v2''], body = None\<rparr>"
    by (simp_all add: changed_tag_env_def demo_env_def)
  show ?thesis
    using TypeCache_get_fail_open[of "empty_world\<lparr>localStorage := etag_storage\<rparr>" "''t''"
        \<open>''{"content":"t","timestamp":5,"etag":"v1"}''\<close> demo_env
        "\<lparr>content = ''t'', timestamp = 5, version = None, etag = Some ''v1''\<rparr>" "''v1''"]
      TypeCache_get_fail_open[of "empty_world\<lparr>localStorage := etag_storage\<rparr>" "''t''"
        \<open>''{"content":"t","timestamp":5,"etag":"v1"}''\<close> changed_tag_env
        "\<lparr>content = ''t'', timestamp = 5, version = None, etag = Some ''v1''\<rparr>" "''v1''"]
      a b c d
    by (simp add: empty_world_def)
qed

lemma loadLibrary_unfold:
  "loadLibrary n cfg e libraryName w =
     (if libraryName \<in> loadedModules w \<or> libraryName \<in> loadingQueue w then (Resolved True, w)
      else if libraryName \<notin> set (supportedLibraries cfg) then (Resolved False, w)
      else
        (case fetchAndAddTypes n e libraryName
                (w\<lparr>loadingQueue := insert libraryName (loadingQueue w)\<rparr>) of
           (Resolved u, w1) \<Rightarrow>
             (Resolved True,
              w1\<lparr>loadedModules := insert libraryName (loadedModules w1),
                  loadingQueue := loadingQueue w1 - {libraryName}\<rparr>)
         | (Rejected err, w1) \<Rightarrow>
             (Resolved False, w1\<lparr>loadingQueue := loadingQueue w1 - {libraryName}\<rparr>)
         | (Diverged, w1) \<Rightarrow> (Diverged, w1)))"
  by (simp add: loadLibrary_def loadLibrary_head_def loadLibrary_tail_def)

lemma catch_all_not_Rejected [simp]: "fst (catch_all r) \<noteq> Rejected err"
  by (cases r; cases "fst r") (auto simp: catch_all_def)

lemma processFile_body_not_Rejected: "fst (processFile_body self e url pkg w) \<noteq> Rejected err"
  by (simp add: processFile_body_def Let_def)

lemma fetchEntry_body_not_Rejected: "fst (fetchEntry_body self e spec w) \<noteq> Rejected err"
  by (simp add: fetchEntry_body_def)

lemma walk_not_Rejected: "fst (walk n e c w) \<noteq> Rejected err"
  by (cases n; cases c)
     (simp_all add: processFile_body_not_Rejected fetchEntry_body_not_Rejected)

section \<open>The walker and the coordinator\<close>

lemma fetch_frame [simp]:
  "visited (snd (fetch e m url w)) = visited w"
  "loadingQueue (snd (fetch e m url w)) = loadingQueue w"
  "loadedModules (snd (fetch e m url w)) = loadedModules w"
  by (simp_all add: fetch_def)

lemma TypeCache_get_frame [simp]:
  "visited (snd (TypeCache_get e url w)) = visited w"
  "loadingQueue (snd (TypeCache_get e url w)) = loadingQueue w"
  "loadedModules (snd (TypeCache_get e url w)) = loadedModules w"
  by (simp_all add: TypeCache_get_def Date_now_def validateETag_def fetch_def miss_def hit_def
      Let_def split: option.splits prod.splits)

lemma TypeCache_set_frame [simp]:
  "visited (TypeCache_set e url text tag ver w) = visited w"
  "loadingQueue (TypeCache_set e url text tag ver w) = loadingQueue w"
  "loadedModules (TypeCache_set e url text tag ver w) = loadedModules w"
  by (simp_all add: TypeCache_set_def Date_now_def Let_def)

lemma register_types_frame [simp]:
  "visited (register_types url text pkg w) = visited w"
  "loadingQueue (register_types url text pkg w) = loadingQueue w"
  "loadedModules (register_types url text pkg w) = loadedModules w"
  by (simp_all add: register_types_def register_lib_def addExtraLib_def Let_def)

lemma markVisited_frame [simp]:
  "visited (markVisited p w) = insert p (visited w)"
  "loadingQueue (markVisited p w) = loadingQueue w"
  "loadedModules (markVisited p w) = loadedModules w"
  by (simp_all add: markVisited_def)

lemma obtain_text_frame [simp]:
  "visited (snd (obtain_text e url w)) = visited w"
  "loadingQueue (snd (obtain_text e url w)) = loadingQueue w"
  "loadedModules (snd (obtain_text e url w)) = loadedModules w"
proof -
  obtain c w1 where g: "TypeCache_get e url w = (c, w1)" by force
  obtain r w2 where f: "fetch e GET url w1 = (r, w2)" by force
  have g': "visited w1 = visited w" "loadingQueue w1 = loadingQueue w"
    "loadedModules w1 = loadedModules w"
    using TypeCache_get_frame[of e url w] g by simp_all
  have f': "visited w2 = visited w1" "loadingQueue w2 = loadingQueue w1"
    "loadedModules w2 = loadedModules w1"
    using fetch_frame[of e GET url w1] f by simp_all
  show "visited (snd (obtain_text e url w)) = visited w"
    "loadingQueue (snd (obtain_text e url w)) = loadingQueue w"
    "loadedModules (snd (obtain_text e url w)) = loadedModules w"
    by (simp_all add: obtain_text_def g f g' f' Let_def split: option.splits)
qed

lemma obtain_text_not_Diverged [simp]: "fst (obtain_text e url w) \<noteq> Diverged"
  by (simp add: obtain_text_def Let_def split: option.splits prod.splits)

lemma snd_catch_all [simp]: "snd (catch_all r) = snd r"
  by (cases r; cases "fst r") (auto simp: catch_all_def)

lemma catch_all_Diverged [simp]: "fst (catch_all r) = Diverged \<longleftrightarrow> fst r = Diverged"
  by (cases r; cases "fst r") (auto simp: catch_all_def)

lemma card_Diff_visited_mono:
  "finite U \<Longrightarrow> V \<subseteq> V' \<Longrightarrow> card (U - V') \<le> card (U - V)"
  by (intro card_mono) auto

lemma card_Diff_insert_less:
  assumes "finite U" "u \<in> U" "u \<notin> V"
  shows "card (U - insert u V) < card (U - V)"
proof -
  have "U - insert u V \<subset> U - V" using assms by auto
  then show ?thesis using assms(1) by (intro psubset_card_mono) auto
qed

lemma fst_catch_all_Resolved: "fst (catch_all r) = Resolved () \<longleftrightarrow> fst r \<noteq> Diverged"
  by (cases r; cases "fst r") (auto simp: catch_all_def)

lemma process_refs_ok:
  assumes good: "good_walker U valid sound self k" and fin: "finite U"
  shows "card (U - visited w) < k \<Longrightarrow> sound w \<Longrightarrow>
    \<forall>ref\<in>set refs. \<forall>child. resolveUrl e ref url = Some child
        \<longrightarrow> valid (ProcessFile (normalizeTypeUrl child) None) \<Longrightarrow>
    fst (process_refs self e url refs w) \<noteq> Diverged
    \<and> visited w \<subseteq> visited (snd (process_refs self e url refs w))
    \<and> sound (snd (process_refs self e url refs w))"
proof (induction refs arbitrary: w)
  case Nil
  then show ?case by simp
next
  case (Cons ref refs)
  show ?case
  proof (cases "resolveUrl e ref url")
    case None
    with Cons.prems(2) show ?thesis by simp
  next
    case (Some c)
    obtain r w1 where s: "self (ProcessFile (normalizeTypeUrl c) None) w = (r, w1)" by force
    have "valid (ProcessFile (normalizeTypeUrl c) None)"
      using Cons.prems(3) Some by simp
    with good Cons.prems(1,2) s
    have r: "r = Resolved ()" and sub: "visited w \<subseteq> visited w1" and i1: "sound w1"
      unfolding good_walker_def by (metis fst_conv, metis snd_conv, metis snd_conv)
    from card_Diff_visited_mono[OF fin sub] Cons.prems(1) have "card (U - visited w1) < k" by simp
    from Cons.IH[OF this i1] Cons.prems(3) sub show ?thesis
      by (auto simp: Some s r)
  qed
qed

lemma process_imports_ok:
  assumes good: "good_walker U valid sound self k" and fin: "finite U"
  shows "card (U - visited w) < k \<Longrightarrow> sound w \<Longrightarrow>
    \<forall>name\<in>set names. startsWith name ''.'' \<longrightarrow>
       (\<forall>child. resolveUrl e name url = Some child
          \<longrightarrow> valid (ProcessFile (normalizeTypeUrl child) None)) \<Longrightarrow>
    \<forall>name\<in>set names. \<not> startsWith name ''.'' \<longrightarrow> \<not> str_includes name ''/''
       \<longrightarrow> valid (FetchEntry name) \<Longrightarrow>
    fst (process_imports self e url names w) \<noteq> Diverged
    \<and> visited w \<subseteq> visited (snd (process_imports self e url names w))
    \<and> sound (snd (process_imports self e url names w))"
proof (induction names arbitrary: w)
  case Nil
  then show ?case by simp
next
  case (Cons name names)
  have IH: "card (U - visited w') < k \<Longrightarrow> sound w' \<Longrightarrow>
    fst (process_imports self e url names w') \<noteq> Diverged
    \<and> visited w' \<subseteq> visited (snd (process_imports self e url names w'))
    \<and> sound (snd (process_imports self e url names w'))" for w'
    using Cons.IH[of w'] Cons.prems(3,4) by simp
  show ?case
  proof (cases "startsWith name ''.''")
    case rel: True
    show ?thesis
    proof (cases "resolveUrl e name url")
      case None
      with rel Cons.prems(2) show ?thesis by simp
    next
      case (Some c)
      obtain r w1 where s: "self (ProcessFile (normalizeTypeUrl c) None) w = (r, w1)" by force
      have "valid (ProcessFile (normalizeTypeUrl c) None)"
        using Cons.prems(3) rel Some by simp
      with good Cons.prems(1,2) s
      have r: "r = Resolved ()" and sub: "visited w \<subseteq> visited w1" and i1: "sound w1"
        unfolding good_walker_def by (metis fst_conv, metis snd_conv, metis snd_conv)
      from card_Diff_visited_mono[OF fin sub] Cons.prems(1) have "card (U - visited w1) < k" by simp
      from IH[OF this i1] sub rel show ?thesis
        by (auto simp: Some s r)
    qed
  next
    case nrel: False
    show ?thesis
    proof (cases "str_includes name ''/''")
      case True
      with nrel IH[OF Cons.prems(1,2)] show ?thesis by simp
    next
      case False
      obtain r w1 where s: "self (FetchEntry name) w = (r, w1)" by force
      have "valid (FetchEntry name)" using Cons.prems(4) nrel False by simp
      with good Cons.prems(1,2) s
      have r: "r = Resolved ()" and sub: "visited w \<subseteq> visited w1" and i1: "sound w1"
        unfolding good_walker_def by (metis fst_conv, metis snd_conv, metis snd_conv)
      from card_Diff_visited_mono[OF fin sub] Cons.prems(1) have "card (U - visited w1) < k" by simp
      from IH[OF this i1] sub nrel False show ?thesis
        by (auto simp: s r catch_all_def)
    qed
  qed
qed

lemma set_removeItem: "set (removeItem k ls) \<subseteq> set ls"
  by (auto simp: removeItem_def)

lemma set_setItem: "set (setItem k v ls) \<subseteq> insert (k, v) (set ls)"
  by (auto simp: setItem_def)

lemma set_cleanup_scan: "set (fst (cleanup_scan e i ls acc)) \<subseteq> set ls"
proof (induction e i ls acc rule: cleanup_scan.induct)
  case (1 e i ls entries)
  show ?case
  proof (cases "i < length ls")
    case False
    then show ?thesis by (subst cleanup_scan.simps) simp
  next
    case True
    obtain key val where kv: "ls ! i = (key, val)" by (cases "ls ! i")
    show ?thesis
    proof (cases "isCacheKey key \<and> val \<noteq> []")
      case False
      with 1(3,4)[OF True kv[symmetric]] True kv show ?thesis
        by (subst cleanup_scan.simps) auto
    next
      case ck: True
      show ?thesis
      proof (cases "JSON_parse e val")
        case None
        from 1(1)[OF True kv[symmetric] _ _ None] ck
        have "set (fst (cleanup_scan e (Suc i) (removeItem key ls) entries)) \<subseteq> set ls"
          using set_removeItem[of key ls] by auto
        with True kv ck None show ?thesis
          by (subst cleanup_scan.simps) simp
      next
        case (Some parsed)
        from 1(2)[OF True kv[symmetric] _ _ Some] ck True kv Some show ?thesis
          by (subst cleanup_scan.simps) simp
      qed
    qed
  qed
qed

lemma set_ensureCacheSpace: "set (ensureCacheSpace e ls) \<subseteq> set ls"
proof -
  obtain ls1 entries where c: "cleanup_scan e 0 ls [] = (ls1, entries)" by force
  have "set ls1 \<subseteq> set ls"
    using set_cleanup_scan[of e 0 ls "[]"] by (simp add: c)
  then show ?thesis
    by (auto simp: ensureCacheSpace_def cleanupOldEntries_def c Let_def foldl_removeItem)
qed

lemma stored_within_same:
  "localStorage w' = localStorage w \<Longrightarrow> stored_within e ls w' = stored_within e ls w"
  by (simp add: stored_within_def)

lemma fetch_storage [simp]: "localStorage (snd (fetch e m url w)) = localStorage w"
  by (simp add: fetch_def)

lemma markVisited_storage [simp]: "localStorage (markVisited p w) = localStorage w"
  by (simp add: markVisited_def)

lemma register_types_storage [simp]: "localStorage (register_types url src pkg w) = localStorage w"
  by (simp add: register_types_def register_lib_def addExtraLib_def Let_def)

lemma stored_within_frame [simp]:
  "stored_within e ls (snd (fetch e' m url w)) = stored_within e ls w"
  "stored_within e ls (markVisited p w) = stored_within e ls w"
  "stored_within e ls (register_types url src pkg w) = stored_within e ls w"
  by (simp_all add: stored_within_def)

lemma TypeCache_get_storage: "set (localStorage (snd (TypeCache_get e url w))) \<subseteq> set (localStorage w)"
  using set_removeItem[of "getCacheKey url" "localStorage w"]
  by (auto simp: TypeCache_get_def Date_now_def validateETag_def fetch_def miss_def hit_def
      Let_def split: option.splits prod.splits if_splits)

lemma TypeCache_get_within:
  "stored_within e ls w \<Longrightarrow> stored_within e ls (snd (TypeCache_get e url w))"
  using TypeCache_get_storage[of e url w] by (auto simp: stored_within_def)

lemma TypeCache_get_cached:
  assumes "TypeCache_get e url w = (Some src, w1)" and "stored_within e ls w"
  shows "src \<in> cache_texts e ls url"
proof -
  from assms(1) obtain v parsed where g: "getItem (localStorage w) (getCacheKey url) = Some v"
    and p: "JSON_parse e v = Some parsed" and c: "content parsed = src"
    by (auto simp: TypeCache_get_def Let_def Date_now_def hit_def miss_def
        split: option.splits if_splits prod.splits)
  from g have "(getCacheKey url, v) \<in> set (localStorage w)"
    by (auto simp: getItem_def dest: map_of_SomeD)
  with assms(2) have "(getCacheKey url, v) \<in> set ls \<or> (getCacheKey url, v) \<in> written e"
    by (auto simp: stored_within_def)
  with p c show ?thesis
    by (auto simp: cache_texts_def)
qed

lemma TypeCache_set_within:
  assumes "src \<in> net_texts e url" and "stored_within e ls w"
  shows "stored_within e ls (TypeCache_set e url src tag ver w)"
proof -
  let ?info = "\<lparr>content = src, timestamp = clock e (ticks w), version = ver, etag = tag\<rparr>"
  have "(getCacheKey url, JSON_stringify e ?info) \<in> written e"
    using assms(1) unfolding written_def by force
  moreover have "set (ensureCacheSpace e (localStorage w)) \<subseteq> set ls \<union> written e"
    using set_ensureCacheSpace[of e "localStorage w"] assms(2) by (auto simp: stored_within_def)
  moreover have "set (setItem (getCacheKey url) (JSON_stringify e ?info)
        (ensureCacheSpace e (localStorage w)))
      \<subseteq> insert (getCacheKey url, JSON_stringify e ?info) (set (ensureCacheSpace e (localStorage w)))"
    by (rule set_setItem)
  ultimately show ?thesis
    unfolding stored_within_def TypeCache_set_storage Let_def by auto
qed

lemma obtain_text_within:
  assumes "stored_within e ls w"
  shows "stored_within e ls (snd (obtain_text e url w))
    \<and> (\<forall>src. fst (obtain_text e url w) = Resolved (Some src) \<longrightarrow> src \<in> avail e ls url)"
proof -
  obtain c w0 where g: "TypeCache_get e url w = (c, w0)" by force
  have w0: "stored_within e ls w0"
    using TypeCache_get_within[OF assms, of url] by (simp add: g)
  show ?thesis
  proof (cases "truthy c")
    case True
    then obtain src where "c = Some src" by (auto simp: truthy_def split: option.splits)
    with g assms have "src \<in> cache_texts e ls url" by (auto dest: TypeCache_get_cached)
    with True w0 \<open>c = Some src\<close> show ?thesis
      by (simp add: obtain_text_def g avail_def)
  next
    case False
    obtain r w2 where f: "fetch e GET url w0 = (r, w2)" by force
    have r: "r = respond e (ticks w0) GET url" and s2: "localStorage w2 = localStorage w0"
      using f by (auto simp: fetch_def)
    have w2: "stored_within e ls w2" using w0 s2 by (simp add: stored_within_def)
    show ?thesis
    proof (cases r)
      case None
      with False w2 show ?thesis by (simp add: obtain_text_def g f)
    next
      case (Some res)
      show ?thesis
      proof (cases "ok res \<and> body res \<noteq> None")
        case False
        with \<open>\<not> truthy c\<close> Some w2 show ?thesis
          by (auto simp: obtain_text_def g f)
      next
        case True
        then obtain src where b: "body res = Some src" by auto
        have n: "src \<in> net_texts e url"
          using Some r b unfolding net_texts_def by force
        from TypeCache_set_within[OF n w2] True b \<open>\<not> truthy c\<close> Some n show ?thesis
          by (simp add: obtain_text_def g f Let_def avail_def)
      qed
    qed
  qed
qed

lemma processFile_body_ok:
  assumes good: "good_walker (marker ` reach_from e ls spec) (\<lambda>c. c \<in> reach_from e ls spec)
        (stored_within e ls) self k"
    and fin: "finite (marker ` reach_from e ls spec)"
    and c: "ProcessFile url0 pkg \<in> reach_from e ls spec"
    and sw: "stored_within e ls w"
    and card: "card (marker ` reach_from e ls spec - visited w) < Suc k"
  shows "fst (processFile_body self e url0 pkg w) = Resolved ()
    \<and> visited w \<subseteq> visited (snd (processFile_body self e url0 pkg w))
    \<and> stored_within e ls (snd (processFile_body self e url0 pkg w))"
proof (cases "normalizeTypeUrl url0 \<in> visited w")
  case True
  with sw show ?thesis by (simp add: processFile_body_def)
next
  case False
  let ?U = "marker ` reach_from e ls spec"
  define url where "url = normalizeTypeUrl url0"
  define w0 where "w0 = markVisited url w"
  have inU: "url \<in> ?U"
    using c by (force simp: url_def)
  have sw0: "stored_within e ls w0" using sw by (simp add: w0_def)
  obtain t w1 where ot: "obtain_text e url w0 = (t, w1)" by force
  have "visited (snd (obtain_text e url w0)) = visited w0" by simp
  then have v1: "visited w1 = insert url (visited w)"
    unfolding ot by (simp add: w0_def)
  from obtain_text_within[OF sw0, of url]
  have sw1: "stored_within e ls w1" and av: "\<And>src. t = Resolved (Some src) \<Longrightarrow> src \<in> avail e ls url"
    unfolding ot by simp_all
  have "url \<notin> visited w" using False by (simp add: url_def)
  from card_Diff_insert_less[OF fin inU this] card
  have c1: "card (?U - visited w1) < k"
    by (simp add: v1)
  have "fst (obtain_text e url w0) \<noteq> Diverged" by simp
  then have tnd: "t \<noteq> Diverged"
    unfolding ot by simp
  have body: "processFile_body self e url0 pkg w = catch_all
        (case (t, w1) of
           (Rejected err, w1) \<Rightarrow> (Rejected err, w1)
         | (Diverged, w1) \<Rightarrow> (Diverged, w1)
         | (Resolved None, w1) \<Rightarrow> (Resolved (), w1)
         | (Resolved (Some text), w1) \<Rightarrow>
             (let w2 = register_types url text pkg w1 in
              case process_refs self e url (fst (preProcessFile e text)) w2 of
                (Resolved u, w3) \<Rightarrow> process_imports self e url (snd (preProcessFile e text)) w3
              | r \<Rightarrow> r))"
    unfolding processFile_body_def Let_def url_def[symmetric] w0_def[symmetric] ot
    using False by (simp add: url_def)
  show ?thesis
  proof (cases t)
    case Diverged
    with tnd show ?thesis by simp
  next
    case (Rejected err)
    then show ?thesis using sw1 by (auto simp: body catch_all_def v1)
  next
    case (Resolved topt)
    show ?thesis
    proof (cases topt)
      case None
      with Resolved show ?thesis using sw1 by (auto simp: body catch_all_def v1)
    next
      case (Some src)
      have src: "src \<in> avail e ls (normalizeTypeUrl url0)"
        using av Resolved Some by (simp add: url_def)
      define w2 where "w2 = register_types url src pkg w1"
      have c2: "card (?U - visited w2) < k" using c1 by (simp add: w2_def)
      have sw2: "stored_within e ls w2" using sw1 by (simp add: w2_def)
      obtain r w3 where refs_eq: "process_refs self e url (fst (preProcessFile e src)) w2 = (r, w3)"
        by force
      have "fst (process_refs self e url (fst (preProcessFile e src)) w2) \<noteq> Diverged
          \<and> visited w2 \<subseteq> visited (snd (process_refs self e url (fst (preProcessFile e src)) w2))
          \<and> stored_within e ls (snd (process_refs self e url (fst (preProcessFile e src)) w2))"
        by (rule process_refs_ok[OF good fin c2 sw2])
           (auto simp: url_def intro: reach_from.reference[OF c src])
      then have r: "r \<noteq> Diverged" and s3: "visited w2 \<subseteq> visited w3"
        and sw3: "stored_within e ls w3"
        unfolding refs_eq by simp_all
      have c3: "card (?U - visited w3) < k"
        using card_Diff_visited_mono[OF fin s3] c2 by simp
      have "fst (process_imports self e url (snd (preProcessFile e src)) w3) \<noteq> Diverged
          \<and> visited w3 \<subseteq> visited (snd (process_imports self e url (snd (preProcessFile e src)) w3))
          \<and> stored_within e ls (snd (process_imports self e url (snd (preProcessFile e src)) w3))"
        by (rule process_imports_ok[OF good fin c3 sw3])
           (auto simp: url_def intro: reach_from.relative_import[OF c src]
              reach_from.bare_import[OF c src])
      then have pi: "fst (process_imports self e url (snd (preProcessFile e src)) w3) \<noteq> Diverged"
        "visited w3 \<subseteq> visited (snd (process_imports self e url (snd (preProcessFile e src)) w3))"
        "stored_within e ls (snd (process_imports self e url (snd (preProcessFile e src)) w3))"
        by simp_all
      have v2: "visited w2 = insert url (visited w)" by (simp add: w2_def v1)
      show ?thesis
        using r s3 pi v2 sw3
        by (cases r) (auto simp: body Resolved Some w2_def[symmetric] refs_eq fst_catch_all_Resolved)
    qed
  qed
qed

lemma fetchEntry_body_ok:
  assumes good: "good_walker (marker ` reach_from e ls spec) (\<lambda>c. c \<in> reach_from e ls spec)
        (stored_within e ls) self k"
    and fin: "finite (marker ` reach_from e ls spec)"
    and c: "FetchEntry s \<in> reach_from e ls spec"
    and sw: "stored_within e ls w"
    and card: "card (marker ` reach_from e ls spec - visited w) < Suc k"
  shows "fst (fetchEntry_body self e s w) = Resolved ()
    \<and> visited w \<subseteq> visited (snd (fetchEntry_body self e s w))
    \<and> stored_within e ls (snd (fetchEntry_body self e s w))"
proof (cases "''package:'' @ s \<in> visited w")
  case True
  with sw show ?thesis by (simp add: fetchEntry_body_def)
next
  case False
  let ?U = "marker ` reach_from e ls spec"
  define w0 where "w0 = markVisited (''package:'' @ s) w"
  have inU: "''package:'' @ s \<in> ?U"
    using c by force
  obtain resp w1 where f: "fetch e HEAD (''https://esm.sh/'' @ s) w0 = (resp, w1)" by force
  have resp: "resp = respond e (ticks w0) HEAD (''https://esm.sh/'' @ s)"
    using f by (simp add: fetch_def)
  have "visited (snd (fetch e HEAD (''https://esm.sh/'' @ s) w0)) = visited w0" by simp
  then have v1: "visited w1 = insert (''package:'' @ s) (visited w)"
    unfolding f by (simp add: w0_def)
  have "localStorage (snd (fetch e HEAD (''https://esm.sh/'' @ s) w0)) = localStorage w0" by simp
  then have "localStorage w1 = localStorage w"
    unfolding f by (simp add: w0_def)
  then have sw1: "stored_within e ls w1" using sw by (simp add: stored_within_def)
  have c1: "card (?U - visited w1) < k"
    using card_Diff_insert_less[OF fin inU False] card by (simp add: v1)
  have call: "fst (self c' w1) = Resolved () \<and> visited w1 \<subseteq> visited (snd (self c' w1))
      \<and> stored_within e ls (snd (self c' w1))"
    if "c' \<in> reach_from e ls spec" for c'
    using good that c1 sw1 unfolding good_walker_def by blast
  have body: "fetchEntry_body self e s w = catch_all
        (case resp of
           None \<Rightarrow> (Rejected ''fetch failed'', w1)
         | Some r \<Rightarrow>
             if \<not> ok r then (Resolved (), w1)
             else if truthy (header r ''X-TypeScript-Types'') then
               (case resolveUrl e (the (header r ''X-TypeScript-Types'')) (''https://esm.sh/'' @ s) of
                  None \<Rightarrow> (Rejected ''invalid URL'', w1)
                | Some typesUrl \<Rightarrow> self (ProcessFile typesUrl (Some s)) w1)
             else self (ProcessFile (''https://esm.sh/'' @ s @ ''?dts'') (Some s)) w1)"
    unfolding fetchEntry_body_def Let_def w0_def[symmetric] f using False by simp
  have sub: "visited w \<subseteq> visited w1" by (auto simp: v1)
  show ?thesis
  proof (cases resp)
    case None
    with sub sw1 show ?thesis by (simp add: body catch_all_def)
  next
    case (Some r)
    show ?thesis
    proof (cases "ok r")
      case False
      with Some sub sw1 show ?thesis by (simp add: body catch_all_def)
    next
      case okr: True
      show ?thesis
      proof (cases "truthy (header r ''X-TypeScript-Types'')")
        case False
        with Some okr sub call[OF reach_from.fallback[OF c]] show ?thesis
          by (auto simp: body fst_catch_all_Resolved)
      next
        case th: True
        then obtain h where h: "header r ''X-TypeScript-Types'' = Some h"
          by (auto simp: truthy_def split: option.splits)
        show ?thesis
        proof (cases "resolveUrl e h (''https://esm.sh/'' @ s)")
          case None
          with Some okr th h sub sw1 show ?thesis by (simp add: body catch_all_def)
        next
          case res: (Some typesUrl)
          have "ProcessFile typesUrl (Some s) \<in> reach_from e ls spec"
            using reach_from.types_header[OF c _ h res] Some resp by metis
          from call[OF this] Some okr th h res sub show ?thesis
            by (auto simp: body fst_catch_all_Resolved)
        qed
      qed
    qed
  qed
qed

lemma walk_resolves:
  assumes fin: "finite (marker ` reach_from e ls spec)"
  shows "c \<in> reach_from e ls spec \<Longrightarrow> stored_within e ls w \<Longrightarrow>
    card (marker ` reach_from e ls spec - visited w) < n \<Longrightarrow>
    fst (walk n e c w) = Resolved () \<and> visited w \<subseteq> visited (snd (walk n e c w))
    \<and> stored_within e ls (snd (walk n e c w))"
proof (induction n arbitrary: c w)
  case 0
  then show ?case by simp
next
  case (Suc n)
  have good: "good_walker (marker ` reach_from e ls spec) (\<lambda>c. c \<in> reach_from e ls spec)
      (stored_within e ls) (walk n e) n"
    unfolding good_walker_def using Suc.IH by blast
  show ?case
  proof (cases c)
    case (ProcessFile url pkg)
    from processFile_body_ok[OF good fin Suc.prems(1)[unfolded ProcessFile] Suc.prems(2,3)]
    show ?thesis by (simp add: ProcessFile)
  next
    case (FetchEntry s)
    from fetchEntry_body_ok[OF good fin Suc.prems(1)[unfolded FetchEntry] Suc.prems(2,3)]
    show ?thesis by (simp add: FetchEntry)
  qed
qed

lemma walk_resolves_from:
  assumes fin: "finite (marker ` reach_from e (localStorage w) spec)"
    and n: "card (marker ` reach_from e (localStorage w) spec) < n"
  shows "fst (walk n e (FetchEntry spec) w) = Resolved ()"
proof -
  have "card (marker ` reach_from e (localStorage w) spec - visited w)
      \<le> card (marker ` reach_from e (localStorage w) spec)"
    using fin by (intro card_mono) auto
  with n have "card (marker ` reach_from e (localStorage w) spec - visited w) < n" by simp
  moreover have "stored_within e (localStorage w) w" by (simp add: stored_within_def)
  ultimately show ?thesis
    using walk_resolves[OF fin reach_from.root] by blast
qed

lemma avail_texts: "src \<in> avail e ls url \<Longrightarrow> src \<in> texts e"
  by (auto simp: avail_def net_texts_def cache_texts_def texts_def)

lemma reach_from_reach: "c \<in> reach_from e ls spec \<Longrightarrow> c \<in> reach e spec"
proof (induction rule: reach_from.induct)
  case root
  show ?case by (rule reach.root)
next
  case (types_header s n resp h typesUrl)
  then show ?case by (intro reach.types_header)
next
  case (fallback s)
  then show ?case by (intro reach.fallback)
next
  case (reference url pkg src ref child)
  then show ?case using avail_texts by (blast intro: reach.reference)
next
  case (relative_import url pkg src name child)
  then show ?case using avail_texts by (blast intro: reach.relative_import)
next
  case (bare_import url pkg src name)
  then show ?case using avail_texts by (blast intro: reach.bare_import)
qed

lemma walk_resolves_large:
  assumes fin: "finite (marker ` reach e spec)" and n: "card (marker ` reach e spec) < n"
  shows "fst (walk n e (FetchEntry spec) w) = Resolved ()"
proof -
  have sub: "marker ` reach_from e (localStorage w) spec \<subseteq> marker ` reach e spec"
    by (auto dest: reach_from_reach)
  have "finite (marker ` reach_from e (localStorage w) spec)"
    using sub fin by (rule finite_subset)
  moreover have "card (marker ` reach_from e (localStorage w) spec) < n"
    using card_mono[OF fin sub] n by simp
  ultimately show ?thesis by (rule walk_resolves_from)
qed

lemma process_refs_keeps:
  assumes "keeps_sets self"
  shows "loadingQueue (snd (process_refs self e url refs w)) = loadingQueue w
    \<and> loadedModules (snd (process_refs self e url refs w)) = loadedModules w"
proof (induction refs arbitrary: w)
  case Nil
  then show ?case by simp
next
  case (Cons ref refs)
  show ?case
  proof (cases "resolveUrl e ref url")
    case None
    then show ?thesis by simp
  next
    case (Some c)
    obtain r w1 where s: "self (ProcessFile (normalizeTypeUrl c) None) w = (r, w1)" by force
    with assms have k: "loadingQueue w1 = loadingQueue w" "loadedModules w1 = loadedModules w"
      unfolding keeps_sets_def by (metis snd_conv)+
    show ?thesis
      using Cons.IH[of w1] k by (cases r) (simp_all add: Some s)
  qed
qed

lemma process_imports_keeps:
  assumes "keeps_sets self"
  shows "loadingQueue (snd (process_imports self e url names w)) = loadingQueue w
    \<and> loadedModules (snd (process_imports self e url names w)) = loadedModules w"
proof (induction names arbitrary: w)
  case Nil
  then show ?case by simp
next
  case (Cons name names)
  show ?case
  proof (cases "startsWith name ''.''")
    case rel: True
    show ?thesis
    proof (cases "resolveUrl e name url")
      case None
      with rel show ?thesis by simp
    next
      case (Some c)
      obtain r w1 where s: "self (ProcessFile (normalizeTypeUrl c) None) w = (r, w1)" by force
      with assms have k: "loadingQueue w1 = loadingQueue w" "loadedModules w1 = loadedModules w"
        unfolding keeps_sets_def by (metis snd_conv)+
      show ?thesis
        using Cons.IH[of w1] k rel by (cases r) (simp_all add: Some s)
    qed
  next
    case nrel: False
    show ?thesis
    proof (cases "str_includes name ''/''")
      case True
      with nrel Cons.IH[of w] show ?thesis by simp
    next
      case False
      obtain r w1 where s: "self (FetchEntry name) w = (r, w1)" by force
      with assms have k: "loadingQueue w1 = loadingQueue w" "loadedModules w1 = loadedModules w"
        unfolding keeps_sets_def by (metis snd_conv)+
      show ?thesis
        using Cons.IH[of w1] k nrel False by (cases r) (simp_all add: s catch_all_def)
    qed
  qed
qed

lemma processFile_body_keeps:
  assumes "keeps_sets self"
  shows "loadingQueue (snd (processFile_body self e url0 pkg w)) = loadingQueue w
    \<and> loadedModules (snd (processFile_body self e url0 pkg w)) = loadedModules w"
proof (cases "normalizeTypeUrl url0 \<in> visited w")
  case True
  then show ?thesis by (simp add: processFile_body_def)
next
  case False
  define url where "url = normalizeTypeUrl url0"
  define w0 where "w0 = markVisited url w"
  obtain t w1 where ot: "obtain_text e url w0 = (t, w1)" by force
  have "loadingQueue (snd (obtain_text e url w0)) = loadingQueue w0
      \<and> loadedModules (snd (obtain_text e url w0)) = loadedModules w0" by simp
  then have k1: "loadingQueue w1 = loadingQueue w" "loadedModules w1 = loadedModules w"
    unfolding ot by (simp_all add: w0_def)
  have body: "snd (processFile_body self e url0 pkg w) = snd
        (case (t, w1) of
           (Rejected err, w1) \<Rightarrow> (Rejected err, w1)
         | (Diverged, w1) \<Rightarrow> (Diverged, w1)
         | (Resolved None, w1) \<Rightarrow> (Resolved (), w1)
         | (Resolved (Some text), w1) \<Rightarrow>
             (let w2 = register_types url text pkg w1 in
              case process_refs self e url (fst (preProcessFile e text)) w2 of
                (Resolved u, w3) \<Rightarrow> process_imports self e url (snd (preProcessFile e text)) w3
              | r \<Rightarrow> r))"
    unfolding processFile_body_def Let_def url_def[symmetric] w0_def[symmetric] ot
    using False by (simp add: url_def)
  show ?thesis
  proof (cases t)
    case Diverged
    then show ?thesis by (simp add: body k1)
  next
    case (Rejected err)
    then show ?thesis by (simp add: body k1)
  next
    case (Resolved topt)
    show ?thesis
    proof (cases topt)
      case None
      with Resolved show ?thesis by (simp add: body k1)
    next
      case (Some src)
      define w2 where "w2 = register_types url src pkg w1"
      have k2: "loadingQueue w2 = loadingQueue w" "loadedModules w2 = loadedModules w"
        by (simp_all add: w2_def k1)
      obtain r w3 where refs_eq: "process_refs self e url (fst (preProcessFile e src)) w2 = (r, w3)"
        by force
      from process_refs_keeps[OF assms, of e url "fst (preProcessFile e src)" w2]
      have k3: "loadingQueue w3 = loadingQueue w" "loadedModules w3 = loadedModules w"
        unfolding refs_eq by (simp_all add: k2)
      from process_imports_keeps[OF assms, of e url "snd (preProcessFile e src)" w3]
      show ?thesis
        by (cases r) (simp_all add: body Resolved Some w2_def[symmetric] refs_eq k3)
    qed
  qed
qed

lemma fetchEntry_body_keeps:
  assumes "keeps_sets self"
  shows "loadingQueue (snd (fetchEntry_body self e s w)) = loadingQueue w
    \<and> loadedModules (snd (fetchEntry_body self e s w)) = loadedModules w"
proof -
  have call: "loadingQueue (snd (self c w')) = loadingQueue w'
      \<and> loadedModules (snd (self c w')) = loadedModules w'" for c w'
    using assms unfolding keeps_sets_def by blast
  show ?thesis
    by (simp add: fetchEntry_body_def Let_def call split: option.splits prod.splits)
       (auto simp: fetch_def markVisited_def)
qed

lemma walk_keeps: "keeps_sets (walk n e)"
proof (induction n)
  case 0
  then show ?case by (simp add: keeps_sets_def)
next
  case (Suc n)
  show ?case
    unfolding keeps_sets_def
  proof (intro allI)
    fix c w
    show "loadingQueue (snd (walk (Suc n) e c w)) = loadingQueue w
      \<and> loadedModules (snd (walk (Suc n) e c w)) = loadedModules w"
      using processFile_body_keeps[OF Suc] fetchEntry_body_keeps[OF Suc]
      by (cases c) simp_all
  qed
qed

text \<open>
  Claim C9. The promise of \<^verbatim>\<open>fetchAndAddTypes\<close> never rejects, and neither does a
  call of \<^verbatim>\<open>fetchEntry\<close> or \<^verbatim>\<open>processFile\<close> at any depth: every exception and every
  failed request ends in a \<^verbatim>\<open>catch\<close> inside them. When the calls a load can reach
  have finitely many markers, the promise resolves: every depth beyond their number
  is enough. This holds for the coarse bound and for the dependency graph of the load.
\<close>

theorem fetchAndAddTypes_never_rejects:
  "fst (fetchAndAddTypes n e spec w) \<noteq> Rejected err
   \<and> fst (fetchEntry n e spec w) \<noteq> Rejected err
   \<and> fst (processFile n e url pkg w) \<noteq> Rejected err
   \<and> (finite (marker ` reach e spec) \<longrightarrow>
        (\<forall>k > card (marker ` reach e spec). fst (fetchAndAddTypes k e spec w) = Resolved ()))
   \<and> (finite (marker ` reach_from e (localStorage w) spec) \<longrightarrow>
        (\<forall>k > card (marker ` reach_from e (localStorage w) spec).
            fst (fetchAndAddTypes k e spec w) = Resolved ()))"
  by (auto simp: fetchAndAddTypes_def fetchEntry_def processFile_def walk_not_Rejected
      intro: walk_resolves_large walk_resolves_from)

lemma reach_offline:
  "c \<in> reach demo_env spec \<Longrightarrow>
   c \<in> {FetchEntry spec, ProcessFile (''https://esm.sh/'' @ spec @ ''?dts'') (Some spec)}"
  by (induction rule: reach.induct) (auto simp: demo_env_def)

lemma finite_reach_offline: "finite (reach demo_env spec)"
  by (rule finite_subset[of _ "{FetchEntry spec, ProcessFile (''https://esm.sh/'' @ spec @ ''?dts'') (Some spec)}"])
     (auto dest: reach_offline)

lemma card_reach_offline: "card (marker ` reach demo_env spec) < 3"
proof -
  have "marker ` reach demo_env spec
      \<subseteq> marker ` {FetchEntry spec, ProcessFile (''https://esm.sh/'' @ spec @ ''?dts'') (Some spec)}"
    by (auto dest: reach_offline)
  then have "card (marker ` reach demo_env spec)
      \<le> card (marker ` {FetchEntry spec, ProcessFile (''https://esm.sh/'' @ spec @ ''?dts'') (Some spec)})"
    by (intro card_mono) auto
  also have "\<dots> \<le> 2"
    by (simp add: card_insert_if)
  finally show ?thesis by simp
qed

lemma reach_from_offline:
  "finite (marker ` reach_from demo_env ls spec) \<and> card (marker ` reach_from demo_env ls spec) < 3"
proof -
  have sub: "marker ` reach_from demo_env ls spec \<subseteq> marker ` reach demo_env spec"
    by (auto dest: reach_from_reach)
  have fin: "finite (marker ` reach demo_env spec)"
    using finite_reach_offline[of spec] by simp
  from finite_subset[OF sub fin] card_mono[OF fin sub] card_reach_offline[of spec]
  show ?thesis by simp
qed

theorem fetchAndAddTypes_never_rejects_witness:
  "finite (marker ` reach demo_env ''react'')
   \<and> card (marker ` reach demo_env ''react'') < 3
   \<and> finite (marker ` reach_from demo_env (localStorage empty_world) ''react'')
   \<and> card (marker ` reach_from demo_env (localStorage empty_world) ''react'') < 3
   \<and> respond demo_env 0 HEAD ''https://esm.sh/react'' = None
   \<and> fst (fetchAndAddTypes 3 demo_env ''react'' empty_world) = Resolved ()"
  using fetchAndAddTypes_never_rejects[of 3 demo_env "''react''" empty_world]
    finite_reach_offline[of "''react''"] card_reach_offline[of "''react''"]
    reach_from_offline[of "localStorage empty_world" "''react''"]
  by (simp add: demo_env_def)

lemma fetchAndAddTypes_keeps:
  "loadingQueue (snd (fetchAndAddTypes n e spec w)) = loadingQueue w"
  "loadedModules (snd (fetchAndAddTypes n e spec w)) = loadedModules w"
  using walk_keeps[of n e] by (simp_all add: fetchAndAddTypes_def fetchEntry_def keeps_sets_def)

lemma loadLibrary_cases:
  assumes "libraryName \<in> set (supportedLibraries cfg)"
    and "libraryName \<notin> loadedModules w" and "libraryName \<notin> loadingQueue w"
  shows "loadLibrary n cfg e libraryName w =
     (case fetchAndAddTypes n e libraryName (w\<lparr>loadingQueue := insert libraryName (loadingQueue w)\<rparr>) of
        (Diverged, w1) \<Rightarrow> (Diverged, w1)
      | (r, w1) \<Rightarrow> (Resolved True,
           w1\<lparr>loadedModules := insert libraryName (loadedModules w1),
               loadingQueue := loadingQueue w1 - {libraryName}\<rparr>))"
proof -
  obtain r w1 where f: "fetchAndAddTypes n e libraryName
      (w\<lparr>loadingQueue := insert libraryName (loadingQueue w)\<rparr>) = (r, w1)" by force
  have "fst (fetchAndAddTypes n e libraryName
      (w\<lparr>loadingQueue := insert libraryName (loadingQueue w)\<rparr>)) \<noteq> Rejected err" for err
    by (simp add: fetchAndAddTypes_def fetchEntry_def walk_not_Rejected)
  then have "r \<noteq> Rejected err" for err unfolding f by simp
  then show ?thesis
    using assms by (cases r) (auto simp: loadLibrary_unfold f)
qed


lemma loadLibrary_resolves:
  assumes a: "libraryName \<in> set (supportedLibraries cfg)" "libraryName \<notin> loadedModules w"
      "libraryName \<notin> loadingQueue w"
    and fin: "finite (marker ` reach e libraryName)"
    and k: "card (marker ` reach e libraryName) < k"
  shows "fst (loadLibrary k cfg e libraryName w) = Resolved True"
proof -
  let ?w0 = "w\<lparr>loadingQueue := insert libraryName (loadingQueue w)\<rparr>"
  have "fst (fetchAndAddTypes k e libraryName ?w0) = Resolved ()"
    using walk_resolves_large[OF fin k]
    by (simp add: fetchAndAddTypes_def fetchEntry_def)
  then show ?thesis
    using loadLibrary_cases[OF a, of k e]
    by (cases "fetchAndAddTypes k e libraryName ?w0") simp
qed


lemma loadLibrary_sets:
  assumes "fst (loadLibrary n cfg e lib w) \<noteq> Diverged"
  shows "fst (loadLibrary n cfg e lib w)
      = Resolved (lib \<in> loadedModules w \<or> lib \<in> loadingQueue w \<or> lib \<in> set (supportedLibraries cfg))
    \<and> loadingQueue (snd (loadLibrary n cfg e lib w)) = loadingQueue w
    \<and> (loadedModules (snd (loadLibrary n cfg e lib w)) = loadedModules w
        \<or> lib \<in> set (supportedLibraries cfg)
           \<and> loadedModules (snd (loadLibrary n cfg e lib w)) = insert lib (loadedModules w))"
proof (cases "lib \<in> loadedModules w \<or> lib \<in> loadingQueue w")
  case True
  then show ?thesis by (auto simp: loadLibrary_unfold)
next
  case known: False
  show ?thesis
  proof (cases "lib \<in> set (supportedLibraries cfg)")
    case False
    with known show ?thesis by (simp add: loadLibrary_unfold)
  next
    case True
    let ?w0 = "w\<lparr>loadingQueue := insert lib (loadingQueue w)\<rparr>"
    obtain r w1 where f: "fetchAndAddTypes n e lib ?w0 = (r, w1)" by force
    have k: "loadingQueue w1 = insert lib (loadingQueue w)" "loadedModules w1 = loadedModules w"
      using fetchAndAddTypes_keeps[of n e lib ?w0] by (simp_all add: f)
    from loadLibrary_cases[of lib cfg w n e] True known assms k show ?thesis
      by (cases r) (auto simp: f)
  qed
qed

lemma loadLibraries_flags:
  "fst (loadLibraries n cfg e names w) = Resolved results \<Longrightarrow>
   results = map (\<lambda>lib. (lib, lib \<in> loadedModules w \<or> lib \<in> loadingQueue w
       \<or> lib \<in> set (supportedLibraries cfg))) names"
proof (induction names arbitrary: w results)
  case Nil
  then show ?case by simp
next
  case (Cons lib libs)
  obtain s w1 where l: "loadLibrary n cfg e lib w = (s, w1)" by force
  obtain rs w2 where ls: "loadLibraries n cfg e libs w1 = (rs, w2)" by force
  from Cons.prems have nd: "s \<noteq> Diverged"
    by (auto simp: l)
  with Cons.prems obtain rest where rest: "rs = Resolved rest"
    and res: "results = (lib, (case s of Resolved success \<Rightarrow> success | _ \<Rightarrow> False)) # rest"
    by (cases s; cases rs) (auto simp: l ls)
  from loadLibrary_sets[of n cfg e lib w] nd
  have s: "s = Resolved (lib \<in> loadedModules w \<or> lib \<in> loadingQueue w
        \<or> lib \<in> set (supportedLibraries cfg))"
    and q: "loadingQueue w1 = loadingQueue w"
    and m: "loadedModules w1 = loadedModules w
        \<or> lib \<in> set (supportedLibraries cfg) \<and> loadedModules w1 = insert lib (loadedModules w)"
    by (simp_all add: l)
  have "rest = map (\<lambda>lib. (lib, lib \<in> loadedModules w1 \<or> lib \<in> loadingQueue w1
       \<or> lib \<in> set (supportedLibraries cfg))) libs"
    using Cons.IH[of w1 rest] by (simp add: ls rest)
  also have "\<dots> = map (\<lambda>lib. (lib, lib \<in> loadedModules w \<or> lib \<in> loadingQueue w
       \<or> lib \<in> set (supportedLibraries cfg))) libs"
    using q m by auto
  finally show ?case
    by (simp add: res s)
qed

lemma loadLibraries_not_Rejected: "fst (loadLibraries n cfg e names w) \<noteq> Rejected err"
proof (induction names arbitrary: w)
  case Nil
  then show ?case by simp
next
  case (Cons lib libs)
  obtain s w1 where l: "loadLibrary n cfg e lib w = (s, w1)" by force
  obtain rs w2 where ls: "loadLibraries n cfg e libs w1 = (rs, w2)" by force
  from Cons.IH[of w1] have "rs \<noteq> Rejected err" by (simp add: ls)
  then show ?case
    by (cases s; cases rs) (simp_all add: l ls)
qed

lemma reach_good:
  "c \<in> reach registry_env ''good'' \<Longrightarrow>
   c \<in> {FetchEntry ''good'', ProcessFile ''https://esm.sh/v135/good/index.d.ts'' (Some ''good''),
        ProcessFile ''https://esm.sh/good?dts'' (Some ''good'')}"
  by (induction rule: reach.induct)
     (auto simp: registry_env_def demo_env_def split: if_splits)

lemma reach_bad:
  "c \<in> reach registry_env ''bad-unreachable'' \<Longrightarrow>
   c \<in> {FetchEntry ''bad-unreachable'',
        ProcessFile ''https://esm.sh/bad-unreachable?dts'' (Some ''bad-unreachable'')}"
  by (induction rule: reach.induct)
     (auto simp: registry_env_def demo_env_def split: if_splits)

lemma card_reach_registry:
  "finite (marker ` reach registry_env ''good'')" "card (marker ` reach registry_env ''good'') < 4"
  "finite (marker ` reach registry_env ''bad-unreachable'')"
  "card (marker ` reach registry_env ''bad-unreachable'') < 4"
proof -
  let ?G = "{FetchEntry ''good'', ProcessFile ''https://esm.sh/v135/good/index.d.ts'' (Some ''good''),
        ProcessFile ''https://esm.sh/good?dts'' (Some ''good'')}"
  let ?B = "{FetchEntry ''bad-unreachable'',
        ProcessFile ''https://esm.sh/bad-unreachable?dts'' (Some ''bad-unreachable'')}"
  have g: "marker ` reach registry_env ''good'' \<subseteq> marker ` ?G"
    using reach_good by blast
  have b: "marker ` reach registry_env ''bad-unreachable'' \<subseteq> marker ` ?B"
    using reach_bad by blast
  show "finite (marker ` reach registry_env ''good'')"
    by (rule finite_subset[OF g]) simp
  show "finite (marker ` reach registry_env ''bad-unreachable'')"
    by (rule finite_subset[OF b]) simp
  have "card (marker ` reach registry_env ''good'') \<le> card (marker ` ?G)"
    by (rule card_mono[OF _ g]) simp
  also have "\<dots> \<le> card ?G" by (rule card_image_le) simp
  also have "\<dots> \<le> 3" by (simp add: card_insert_if)
  finally show "card (marker ` reach registry_env ''good'') < 4" by simp
  have "card (marker ` reach registry_env ''bad-unreachable'') \<le> card (marker ` ?B)"
    by (rule card_mono[OF _ b]) simp
  also have "\<dots> \<le> card ?B" by (rule card_image_le) simp
  also have "\<dots> \<le> 2" by (simp add: card_insert_if)
  finally show "card (marker ` reach registry_env ''bad-unreachable'') < 4" by simp
qed

text \<open>
  Claim C3 expects \<^verbatim>\<open>success: false\<close> for a library that cannot be reached. With
  both names on the allow-list and every request for \<^verbatim>\<open>bad-unreachable\<close> rejected,
  the batch reports \<^verbatim>\<open>success: true\<close> for both: the walker has swallowed the
  failure, so the \<^verbatim>\<open>catch\<close> of \<^verbatim>\<open>loadLibrary\<close> that would report it never runs.
\<close>

theorem loadLibraries_unreachable_reported_loaded:
  "(\<forall>n m. respond registry_env n m ''https://esm.sh/bad-unreachable'' = None)
   \<and> supportedLibraries registry_config = [''good'', ''bad-unreachable'']
   \<and> fst (loadLibraries 4 registry_config registry_env [''good'', ''bad-unreachable''] empty_world)
       = Resolved [(''good'', True), (''bad-unreachable'', True)]"
proof -
  let ?cfg = registry_config and ?e = registry_env
  have sup: "supportedLibraries ?cfg = [''good'', ''bad-unreachable'']"
    by (simp add: registry_config_def)
  have e0: "loadedModules empty_world = {}" "loadingQueue empty_world = {}"
    by (simp_all add: empty_world_def)
  obtain s1 w1 where l1: "loadLibrary 4 ?cfg ?e ''good'' empty_world = (s1, w1)" by force
  have "fst (loadLibrary 4 ?cfg ?e ''good'' empty_world) = Resolved True"
  proof (rule loadLibrary_resolves)
    show "''good'' \<in> set (supportedLibraries ?cfg)" by (simp add: sup)
    show "''good'' \<notin> loadedModules empty_world" by (simp add: e0)
    show "''good'' \<notin> loadingQueue empty_world" by (simp add: e0)
    show "finite (marker ` reach ?e ''good'')" by (rule card_reach_registry)
    show "card (marker ` reach ?e ''good'') < 4" by (rule card_reach_registry)
  qed
  then have s1: "s1 = Resolved True" by (simp add: l1)
  have sets: "loadingQueue w1 = loadingQueue empty_world
    \<and> (loadedModules w1 = loadedModules empty_world
        \<or> ''good'' \<in> set (supportedLibraries ?cfg)
           \<and> loadedModules w1 = insert ''good'' (loadedModules empty_world))"
    using loadLibrary_sets[of 4 ?cfg ?e "''good''" empty_world] by (simp only: l1 s1 fst_conv snd_conv) simp
  then have w1: "loadingQueue w1 = {}" "loadedModules w1 = {} \<or> loadedModules w1 = {''good''}"
    unfolding e0 by blast+
  obtain s2 w2 where l2: "loadLibrary 4 ?cfg ?e ''bad-unreachable'' w1 = (s2, w2)" by force
  have "fst (loadLibrary 4 ?cfg ?e ''bad-unreachable'' w1) = Resolved True"
  proof (rule loadLibrary_resolves)
    show "''bad-unreachable'' \<in> set (supportedLibraries ?cfg)" by (simp add: sup)
    show "''bad-unreachable'' \<notin> loadedModules w1" using w1(2) by (elim disjE) simp_all
    show "''bad-unreachable'' \<notin> loadingQueue w1" by (simp add: w1)
    show "finite (marker ` reach ?e ''bad-unreachable'')" by (rule card_reach_registry)
    show "card (marker ` reach ?e ''bad-unreachable'') < 4" by (rule card_reach_registry)
  qed
  then have s2: "s2 = Resolved True" by (simp add: l2)
  have "fst (loadLibraries 4 ?cfg ?e [''good'', ''bad-unreachable''] empty_world)
       = Resolved [(''good'', True), (''bad-unreachable'', True)]"
    by (simp add: l1 s1 l2 s2)
  moreover have "\<forall>n m. respond ?e n m ''https://esm.sh/bad-unreachable'' = None"
    by (simp add: registry_env_def)
  ultimately show ?thesis using sup by simp
qed

section \<open>Interleaved loads\<close>

lemma owed_simps [simp]:
  "owed [] = {#}" "owed (f # fs) = mset (owned f) + owed fs" "owed (fs @ gs) = owed fs + owed gs"
  by (simp_all add: owed_def)

lemma marked_simps [simp]:
  "marked [] = {}" "marked (Marked m # evs) = insert m (marked evs)"
  "marked (CacheGet u # evs) = marked evs" "marked (CacheProbe u # evs) = marked evs"
  "marked (Download u # evs) = marked evs" "marked (CacheSet u # evs) = marked evs"
  "marked (ResolveHead u # evs) = marked evs"
  "marked (xs @ ys) = marked xs \<union> marked ys"
  by (auto simp: marked_def)

lemma well_marked_append:
  "well_marked v (xs @ ys) \<longleftrightarrow> well_marked v xs \<and> well_marked (v \<union> marked xs) ys"
  by (induction v xs rule: well_marked.induct) auto

lemma seg_ok_mono: "seg_ok v {#} seg \<Longrightarrow> seg_ok v L seg"
  unfolding seg_ok_def
  by (auto split: prod.splits) (metis add.commute mset_subset_eq_add_left subset_mset.order_trans subset_mset.add_left_mono)

lemma seg_ok_idle [simp]: "seg_ok v L (v, [], [])"
  by (auto simp: seg_ok_def intro: exI[of _ "{#}"])

lemma start_processFile_ok:
  assumes "start_processFile probe url pkg v = (v', evs, started)"
  shows "seg_ok v {#} (v', evs, case started of None \<Rightarrow> [] | Some f \<Rightarrow> [f])"
proof (cases "normalizeTypeUrl url \<in> v")
  case True
  with assms show ?thesis by (auto simp: start_processFile_def)
next
  case False
  define u where "u = normalizeTypeUrl url"
  from assms False have r: "v' = insert u v"
    "evs = [Marked u, CacheGet u] @ (if probe then [CacheProbe u] else [])"
    "started = Some (PF_cache u pkg probe)"
    by (auto simp: start_processFile_def u_def Let_def)
  let ?fresh = "mset evs + owed [PF_cache u pkg probe]"
  have "\<forall>ev\<in>#?fresh. marker_of ev \<in> v' \<and> marker_of ev \<notin> v"
    using False by (auto simp: r u_def)
  moreover have "\<forall>ev. count ?fresh ev \<le> 1"
    by (auto simp: r)
  ultimately show ?thesis
    unfolding seg_ok_def using False
    by (auto simp: r u_def intro!: exI[of _ ?fresh])
qed

lemma start_fetchEntry_ok:
  assumes "start_fetchEntry spec v = (v', evs, started)"
  shows "seg_ok v {#} (v', evs, case started of None \<Rightarrow> [] | Some f \<Rightarrow> [f])"
proof (cases "''package:'' @ spec \<in> v")
  case True
  with assms show ?thesis by (auto simp: start_fetchEntry_def)
next
  case False
  from assms False have r: "v' = insert (''package:'' @ spec) v"
    "evs = [Marked (''package:'' @ spec), ResolveHead spec]"
    "started = Some (FE_head spec)"
    by (auto simp: start_fetchEntry_def)
  let ?fresh = "mset evs"
  have "\<forall>ev\<in>#?fresh. marker_of ev \<in> v' \<and> marker_of ev \<notin> v"
    using False by (auto simp: r)
  moreover have "\<forall>ev. count ?fresh ev \<le> 1"
    by (auto simp: r)
  ultimately show ?thesis
    unfolding seg_ok_def using False
    by (auto simp: r intro!: exI[of _ ?fresh])
qed

lemma await_call_ok:
  assumes "seg_ok v {#} (v', evs, case started of None \<Rightarrow> [] | Some f \<Rightarrow> [f])"
    and "owned parent = []"
  shows "seg_ok v {#} (await_call (v', evs, started) parent)"
  using assms by (cases started) (auto simp: await_call_def seg_ok_def)

lemma continue_imports_ok: "seg_ok v {#} (continue_imports e probe url names v)"
proof (induction names)
  case Nil
  then show ?case by simp
next
  case (Cons name names)
  show ?case
  proof (cases "startsWith name ''.''")
    case True
    show ?thesis
    proof (cases "resolveUrl e name url")
      case None
      with True show ?thesis by simp
    next
      case (Some child)
      obtain v' evs started where s:
        "start_processFile probe (normalizeTypeUrl child) None v = (v', evs, started)"
        by (metis prod_cases3)
      from await_call_ok[OF start_processFile_ok[OF s], of "PF_imports url names"]
      show ?thesis using True Some by (simp add: s)
    qed
  next
    case False
    show ?thesis
    proof (cases "str_includes name ''/''")
      case True
      with False Cons show ?thesis by simp
    next
      case bare: False
      obtain v' evs started where s: "start_fetchEntry name v = (v', evs, started)"
        by (metis prod_cases3)
      from await_call_ok[OF start_fetchEntry_ok[OF s], of "PF_imports url names"]
      show ?thesis using False bare by (simp add: s)
    qed
  qed
qed

lemma continue_refs_ok: "seg_ok v {#} (continue_refs e probe url refs imports v)"
proof (cases refs)
  case Nil
  then show ?thesis by (simp add: continue_refs_def continue_imports_ok)
next
  case (Cons ref rest)
  show ?thesis
  proof (cases "resolveUrl e ref url")
    case None
    with Cons show ?thesis by (simp add: continue_refs_def)
  next
    case (Some child)
    obtain v' evs started where s:
      "start_processFile probe (normalizeTypeUrl child) None v = (v', evs, started)"
      by (metis prod_cases3)
    from await_call_ok[OF start_processFile_ok[OF s], of "PF_refs url rest imports"]
    show ?thesis using Cons Some by (simp add: continue_refs_def s)
  qed
qed

lemma after_text_ok: "seg_ok v {#} (after_text e probe url src v)"
  by (simp add: after_text_def continue_refs_ok)

lemma resume_ok:
  assumes "resume e probe i f v = Some seg" and "\<forall>ev\<in>set (owned f). marker_of ev \<in> v"
  shows "seg_ok v (mset (owned f)) seg"
proof (cases f)
  case (PF_cache url pkg probing)
  show ?thesis
  proof (cases probing)
    case True
    with assms PF_cache show ?thesis
      by (cases i) (auto simp: seg_ok_def intro!: exI[of _ "{#}"])
  next
    case False
    with assms(1) PF_cache obtain cached where i: "i = Text cached"
      by (cases i) auto
    show ?thesis
    proof (cases "truthy cached")
      case True
      with assms(1) PF_cache False i show ?thesis
        by (auto intro: seg_ok_mono after_text_ok)
    next
      case notruthy: False
      with assms PF_cache False i show ?thesis
        by (auto simp: seg_ok_def intro!: exI[of _ "{#}"])
    qed
  qed
next
  case (PF_fetch url pkg)
  with assms show ?thesis
    by (cases i; cases "case i of Resp r \<Rightarrow> r | _ \<Rightarrow> None")
       (auto simp: seg_ok_def intro!: exI[of _ "{#}"] split: if_splits)
next
  case (PF_text url pkg)
  with assms show ?thesis
    by (cases i; cases "case i of Body r \<Rightarrow> r | _ \<Rightarrow> None")
       (auto simp: seg_ok_def intro!: exI[of _ "{#}"])
next
  case (PF_set url pkg src)
  with assms(1) show ?thesis
    by (cases i) (auto intro: seg_ok_mono after_text_ok)
next
  case (PF_refs url refs imps)
  with assms(1) show ?thesis
    by (cases i) (auto intro: seg_ok_mono continue_refs_ok)
next
  case (PF_imports url imps)
  with assms(1) show ?thesis
    by (cases i) (auto intro: seg_ok_mono continue_imports_ok)
next
  case (FE_head spec)
  from assms(1) FE_head obtain r where i: "i = Resp r" by (cases i) auto
  show ?thesis
  proof (cases r)
    case None
    with assms(1) FE_head i show ?thesis by auto
  next
    case (Some resp)
    obtain v1 evs1 st1 where s1:
      "start_processFile probe (''https://esm.sh/'' @ spec @ ''?dts'') (Some spec) v = (v1, evs1, st1)"
      by (metis prod_cases3)
    have a: "seg_ok v {#} (await_call (start_processFile probe url' (Some spec) v) (FE_child spec))"
      for url'
    proof -
      obtain v2 evs2 st2 where s2: "start_processFile probe url' (Some spec) v = (v2, evs2, st2)"
        by (metis prod_cases3)
      from await_call_ok[OF start_processFile_ok[OF s2], of "FE_child spec"]
      show ?thesis by (simp add: s2)
    qed
    from assms(1) FE_head i Some show ?thesis
      by (auto simp del: seg_ok_idle split: if_splits option.splits intro: seg_ok_idle a)
  qed
next
  case (FE_child spec)
  with assms(1) show ?thesis
    by (cases i) auto
qed

lemma invariant_segment:
  assumes inv: "invariant s" and ok: "seg_ok (seen s) L (v, evs, new)"
    and before: "owed (concat (chains s)) = L + others"
    and after: "owed (concat chains') = owed new + others"
  shows "invariant \<lparr>seen = v, trace = trace s @ evs, chains = chains'\<rparr>"
proof -
  let ?s' = "\<lparr>seen = v, trace = trace s @ evs, chains = chains'\<rparr>"
  from ok obtain fresh where v: "v = seen s \<union> marked evs" and wm: "well_marked (seen s) evs"
    and sub: "mset evs + owed new \<subseteq># L + fresh"
    and fr: "\<forall>ev\<in>#fresh. marker_of ev \<in> v \<and> marker_of ev \<notin> seen s"
    and one: "\<forall>ev. count fresh ev \<le> 1"
    by (auto simp: seg_ok_def)
  from inv have c1: "\<And>ev. count (ledger s) ev \<le> 1"
    and mk: "\<And>ev. ev \<in># ledger s \<Longrightarrow> marker_of ev \<in> seen s"
    and w: "well_marked {} (trace s)" and sn: "seen s = marked (trace s)"
    by (auto simp: invariant_def)
  have led: "ledger ?s' \<subseteq># ledger s + fresh"
  proof -
    have "ledger ?s' = mset (trace s) + (mset evs + owed new) + others"
      by (simp add: ledger_def after)
    also have "\<dots> \<subseteq># mset (trace s) + (L + fresh) + others"
      using sub by (simp add: subset_mset.add_left_mono)
    also have "\<dots> = ledger s + fresh"
      by (simp add: ledger_def before)
    finally show ?thesis .
  qed
  have count: "count (ledger ?s') ev \<le> 1" for ev
  proof (cases "ev \<in># fresh")
    case True
    with fr have "marker_of ev \<notin> seen s" by blast
    with mk have "ev \<notin># ledger s" by blast
    then have "count (ledger s) ev = 0" by (simp add: count_eq_zero_iff)
    moreover have "count (ledger ?s') ev \<le> count (ledger s) ev + count fresh ev"
      using led by (metis count_union mset_subset_eq_count)
    ultimately show ?thesis using one[rule_format, of ev] by simp
  next
    case False
    then have "count fresh ev = 0" by (simp add: count_eq_zero_iff)
    moreover have "count (ledger ?s') ev \<le> count (ledger s) ev + count fresh ev"
      using led by (metis count_union mset_subset_eq_count)
    ultimately show ?thesis using c1[of ev] by simp
  qed
  have markers: "marker_of ev \<in> v" if "ev \<in># ledger ?s'" for ev
  proof -
    from that led have "ev \<in># ledger s + fresh"
      by (meson mset_subset_eqD)
    then show ?thesis
      using mk fr v by auto
  qed
  show ?thesis
    unfolding invariant_def
    using count markers w wm sn v by (auto simp: well_marked_append)
qed

lemma owed_concat_append: "owed (concat (xs @ ys)) = owed (concat xs) + owed (concat ys)"
  by simp

lemma step_invariant:
  assumes "step e s s'" and inv: "invariant s"
  shows "invariant s'"
  using assms(1)
proof cases
  case (call_processFile probe url packageName v evs started)
  from start_processFile_ok[OF call_processFile(2)]
  have ok: "seg_ok (seen s) {#} (v, evs, case started of None \<Rightarrow> [] | Some f \<Rightarrow> [f])" .
  show ?thesis
    unfolding call_processFile(1)
    by (rule invariant_segment[OF inv ok, of "owed (concat (chains s))"]) simp_all
next
  case (call_fetchEntry specifier v evs started)
  from start_fetchEntry_ok[OF call_fetchEntry(2)]
  have ok: "seg_ok (seen s) {#} (v, evs, case started of None \<Rightarrow> [] | Some f \<Rightarrow> [f])" .
  show ?thesis
    unfolding call_fetchEntry(1)
    by (rule invariant_segment[OF inv ok, of "owed (concat (chains s))"]) simp_all
next
  case (resume_chain before f stack after probe i v evs pushed)
  have "\<forall>ev\<in>set (owned f). marker_of ev \<in> seen s"
    using inv by (auto simp: invariant_def ledger_def resume_chain(2))
  from resume_ok[OF resume_chain(3) this]
  have ok: "seg_ok (seen s) (mset (owned f)) (v, evs, pushed)" .
  show ?thesis
    unfolding resume_chain(1)
    by (rule invariant_segment[OF inv ok,
          of "owed (concat before) + owed stack + owed (concat after)"])
       (simp_all add: resume_chain(2))
qed

lemma reachable_invariant: "reachable e s \<Longrightarrow> invariant s"
proof (induction rule: reachable.induct)
  case at_start
  show ?case by (simp add: invariant_def initial_page_def ledger_def)
next
  case (after_step s s')
  then show ?case by (auto intro: step_invariant)
qed

lemma step_seen_mono:
  assumes "step e s s'" and "invariant s"
  shows "seen s \<subseteq> seen s'"
proof -
  have "seg_ok (seen s) L (v, evs, new) \<Longrightarrow> seen s \<subseteq> v" for L v evs new
    by (auto simp: seg_ok_def)
  note mono = this
  from assms(1) show ?thesis
  proof cases
    case (call_processFile probe url packageName v evs started)
    from mono[OF start_processFile_ok[OF call_processFile(2)]] show ?thesis
      by (simp add: call_processFile(1))
  next
    case (call_fetchEntry specifier v evs started)
    from mono[OF start_fetchEntry_ok[OF call_fetchEntry(2)]] show ?thesis
      by (simp add: call_fetchEntry(1))
  next
    case (resume_chain before f stack after probe i v evs pushed)
    have "\<forall>ev\<in>set (owned f). marker_of ev \<in> seen s"
      using assms(2) by (auto simp: invariant_def ledger_def resume_chain(2))
    from mono[OF resume_ok[OF resume_chain(3) this]] show ?thesis
      by (simp add: resume_chain(1))
  qed
qed

text \<open>
  Claim C1. In every page that any interleaving of any loads can reach, under any
  answers of the network and the cache: no event occurs twice, so for every URL there
  is at most one download and for every package at most one resolving request (and
  at most one probe by the cache: the request that revalidates a cached record is the
  cache's own and is counted apart from the download); every request comes after
  its marker was recorded; and a marker, once recorded, stays, whatever became of
  the call that recorded it. A call whose marker is recorded returns at once: it
  emits nothing and suspends nowhere.
\<close>

theorem visited_once:
  "(reachable e s \<longrightarrow>
      distinct (trace s) \<and> well_marked {} (trace s) \<and> seen s = marked (trace s)
      \<and> (\<forall>s'. step e s s' \<longrightarrow> seen s \<subseteq> seen s'))
   \<and> (normalizeTypeUrl url \<in> v \<longrightarrow> start_processFile probe url pkg v = (v, [], None))
   \<and> (''package:'' @ spec \<in> v \<longrightarrow> start_fetchEntry spec v = (v, [], None))"
proof (intro conjI impI allI)
  assume r: "reachable e s"
  then have inv: "invariant s" by (rule reachable_invariant)
  have le: "count (mset (trace s)) ev \<le> 1" for ev
  proof -
    have "count (mset (trace s)) ev \<le> count (ledger s) ev"
      by (simp add: ledger_def)
    also have "\<dots> \<le> 1" using inv by (simp add: invariant_def)
    finally show ?thesis .
  qed
  have "count (mset (trace s)) ev = (if ev \<in> set (trace s) then 1 else 0)" for ev
  proof (cases "ev \<in> set (trace s)")
    case True
    with le[of ev] show ?thesis by (simp add: order_antisym_conv)
  next
    case False
    then show ?thesis by (simp add: count_eq_zero_iff)
  qed
  then show "distinct (trace s)"
    unfolding distinct_count_atmost_1 by blast
  show "well_marked {} (trace s)" "seen s = marked (trace s)"
    using inv by (simp_all add: invariant_def)
  fix s' assume "step e s s'"
  then show "seen s \<subseteq> seen s'" using inv by (rule step_seen_mono)
next
  assume "normalizeTypeUrl url \<in> v"
  then show "start_processFile probe url pkg v = (v, [], None)"
    by (simp add: start_processFile_def)
next
  assume "''package:'' @ spec \<in> v"
  then show "start_fetchEntry spec v = (v, [], None)"
    by (simp add: start_fetchEntry_def)
qed

lemma normalize_react: "normalizeTypeUrl ''https://esm.sh/react?dts'' = ''https://esm.sh/react?dts''"
  by code_simp

lemma run1: "step demo_env initial_page page1"
proof -
  have "start_fetchEntry ''react'' (seen initial_page)
      = ({''package:react''}, [Marked ''package:react'', ResolveHead ''react''], Some (FE_head ''react''))"
    by (simp add: start_fetchEntry_def initial_page_def)
  from step.call_fetchEntry[OF this, of demo_env] show ?thesis
    by (simp add: initial_page_def page1_def)
qed

lemma run2: "step demo_env page1 page2"
proof -
  have "start_fetchEntry ''react'' (seen page1) = (seen page1, [], None)"
    by (simp add: start_fetchEntry_def page1_def)
  from step.call_fetchEntry[OF this, of demo_env] show ?thesis
    by (simp add: page1_def page2_def)
qed

lemma run3: "step demo_env page2 page3"
proof -
  have t: "chains page2 = [] @ (FE_head ''react'' # []) # [[]]"
    by (simp add: page2_def)
  have s: "start_processFile False ''https://esm.sh/react?dts'' (Some ''react'') (seen page2)
      = ({''https://esm.sh/react?dts'', ''package:react''},
         [Marked ''https://esm.sh/react?dts'', CacheGet ''https://esm.sh/react?dts''],
         Some (PF_cache ''https://esm.sh/react?dts'' (Some ''react'') False))"
    unfolding start_processFile_def normalize_react by (simp add: page2_def page1_def Let_def)
  have "resume demo_env False (Resp (Some ok_response)) (FE_head ''react'') (seen page2)
      = Some ({''https://esm.sh/react?dts'', ''package:react''},
         [Marked ''https://esm.sh/react?dts'', CacheGet ''https://esm.sh/react?dts''],
         [PF_cache ''https://esm.sh/react?dts'' (Some ''react'') False, FE_child ''react''])"
    using s by (simp add: ok_response_def truthy_def await_call_def)
  from step.resume_chain[OF t this] show ?thesis
    by (simp add: page2_def page1_def page3_def)
qed

lemma run4: "step demo_env page3 page4"
proof -
  have "start_processFile True ''https://esm.sh/react?dts'' None (seen page3) = (seen page3, [], None)"
    unfolding start_processFile_def normalize_react by (simp add: page3_def Let_def)
  from step.call_processFile[OF this, of demo_env] show ?thesis
    by (simp add: page3_def page4_def)
qed

lemma run5: "step demo_env page4 page5"
proof -
  have t: "chains page4 = [] @ (PF_cache ''https://esm.sh/react?dts'' (Some ''react'') False
      # [FE_child ''react'']) # [[], []]"
    by (simp add: page4_def page3_def)
  have "resume demo_env False (Text None) (PF_cache ''https://esm.sh/react?dts'' (Some ''react'') False)
      (seen page4) = Some (seen page4, [Download ''https://esm.sh/react?dts''],
        [PF_fetch ''https://esm.sh/react?dts'' (Some ''react'')])"
    by (simp add: truthy_def)
  from step.resume_chain[OF t this] show ?thesis
    by (simp add: page4_def page3_def page5_def)
qed

lemma run6: "step demo_env page5 page6"
proof -
  have t: "chains page5 = [] @ (PF_fetch ''https://esm.sh/react?dts'' (Some ''react'')
      # [FE_child ''react'']) # [[], []]"
    by (simp add: page5_def)
  have "resume demo_env False (Resp None) (PF_fetch ''https://esm.sh/react?dts'' (Some ''react''))
      (seen page5) = Some (seen page5, [], [])"
    by simp
  from step.resume_chain[OF t this] show ?thesis
    by (simp add: page5_def page6_def)
qed

lemma run7: "step demo_env page6 page7"
proof -
  have "start_processFile False ''https://esm.sh/react?dts'' None (seen page6) = (seen page6, [], None)"
    unfolding start_processFile_def normalize_react by (simp add: page6_def page5_def Let_def)
  from step.call_processFile[OF this, of demo_env] show ?thesis
    by (simp add: page6_def page5_def page7_def)
qed

lemma reachable_page6: "reachable demo_env page6"
  by (intro reachable.after_step[OF _ run6] reachable.after_step[OF _ run5]
      reachable.after_step[OF _ run4] reachable.after_step[OF _ run3]
      reachable.after_step[OF _ run2] reachable.after_step[OF _ run1] reachable.at_start)

theorem visited_once_witness:
  "reachable demo_env page6 \<and> step demo_env page6 page7
   \<and> trace page7 = [Marked ''package:react'', ResolveHead ''react'',
        Marked ''https://esm.sh/react?dts'', CacheGet ''https://esm.sh/react?dts'',
        Download ''https://esm.sh/react?dts'']
   \<and> distinct (trace page6) \<and> well_marked {} (trace page6) \<and> seen page6 = marked (trace page6)
   \<and> seen page6 \<subseteq> seen page7
   \<and> normalizeTypeUrl ''https://esm.sh/react?dts'' \<in> seen page6
   \<and> start_processFile False ''https://esm.sh/react?dts'' None (seen page6) = (seen page6, [], None)
   \<and> ''package:'' @ ''react'' \<in> seen page6
   \<and> start_fetchEntry ''react'' (seen page6) = (seen page6, [], None)"
proof -
  have a: "normalizeTypeUrl ''https://esm.sh/react?dts'' \<in> seen page6"
    unfolding normalize_react by (simp add: page6_def page5_def)
  have b: "''package:'' @ ''react'' \<in> seen page6"
    by (simp add: page6_def page5_def)
  have c: "trace page7 = [Marked ''package:react'', ResolveHead ''react'',
        Marked ''https://esm.sh/react?dts'', CacheGet ''https://esm.sh/react?dts'',
        Download ''https://esm.sh/react?dts'']"
    by (simp add: page7_def page6_def page5_def)
  show ?thesis
    using visited_once[of demo_env page6 "''https://esm.sh/react?dts''" "seen page6" False None
        "''react''"] reachable_page6 run7 a b c
    by blast
qed

section \<open>Load states\<close>


lemma pending_simps [simp]:
  "pending (s\<lparr>loads := ls\<rparr>) = List.map_filter fst ls"
  "pending (s\<lparr>marks := v\<rparr>) = pending s"
  "pending (s\<lparr>events := evs\<rparr>) = pending s"
  "pending (s\<lparr>loading := q\<rparr>) = pending s"
  "pending (s\<lparr>loaded := l\<rparr>) = pending s"
  by (simp_all add: pending_def)

lemma map_filter_fst_simps [simp]:
  "List.map_filter fst (xs @ ys) = List.map_filter fst xs @ List.map_filter fst ys"
  "List.map_filter fst ((Some a, b) # xs) = a # List.map_filter fst xs"
  "List.map_filter fst ((None, b) # xs) = List.map_filter fst xs"
  "List.map_filter fst [] = []"
  by (simp_all add: List.map_filter_def)








lemma clearCache_frame [simp]:
  "visited (clearCache w) = visited w"
  "loadingQueue (clearCache w) = loadingQueue w"
  "loadedModules (clearCache w) = {}"
  "requests (clearCache w) = requests w"
  by (simp_all add: clearCache_def TypeCache_clear_def)





















end
